theory Spec2Isabelle
  imports Main "HOL-Library.AList" "HOL-Library.Multiset"
begin

section \<open>Data model\<close>

text \<open>
  A JavaScript \<open>Date\<close> holding a valid instant is the number of milliseconds since the
  epoch. \<open>Date.prototype.toISOString\<close> and \<open>new Date(string)\<close> are built-ins of the
  language, inverse to each other on such instants; the string form is kept abstract as
  \<open>ISO t\<close>. It is a non-empty string, hence truthy.
\<close>

type_synonym date = int

datatype isostring = ISO date

definition toISOString :: "date \<Rightarrow> isostring" where
  "toISOString d = ISO d"

fun newDateFrom :: "isostring \<Rightarrow> date" where
  "newDateFrom (ISO d) = d"

subsection \<open>Operation\<close>

text \<open>
  \<open>class Operation\<close>: the payload \<open>data\<close> is opaque (a type parameter), \<open>turnId\<close> is
  \<open>null\<close> (\<open>None\<close>) or a turn id.
\<close>

record 'd operation =
  op_id :: string
  op_timestamp :: date
  op_type :: string
  op_data :: 'd
  undone :: bool
  op_turnId :: "string option"

text \<open>
  The plain document of an operation. A field that a stored document may lack
  (\<open>undefined\<close>) or hold as \<open>null\<close> is an option.
\<close>

record 'd operation_json =
  oj_id :: string
  oj_timestamp :: isostring
  oj_type :: string
  oj_data :: 'd
  oj_undone :: "bool option"
  oj_turnId :: "string option"

text \<open>\<open>Operation.toJSON\<close>.\<close>

definition op_toJSON :: "'d operation \<Rightarrow> 'd operation_json" where
  "op_toJSON op =
     \<lparr> oj_id = op_id op,
       oj_timestamp = toISOString (op_timestamp op),
       oj_type = op_type op,
       oj_data = op_data op,
       oj_undone = Some (undone op),
       oj_turnId = op_turnId op \<rparr>"

text \<open>
  \<open>Operation.fromJSON\<close>: the constructor takes type, data and turnId (default \<open>null\<close>),
  then id, timestamp and \<open>undone || false\<close> are overwritten.
\<close>

definition op_fromJSON :: "'d operation_json \<Rightarrow> 'd operation" where
  "op_fromJSON json =
     \<lparr> op_id = oj_id json,
       op_timestamp = newDateFrom (oj_timestamp json),
       op_type = oj_type json,
       op_data = oj_data json,
       undone = (case oj_undone json of None \<Rightarrow> False | Some b \<Rightarrow> b),
       op_turnId = oj_turnId json \<rparr>"

text \<open>The values of \<open>OperationType\<close>.\<close>

definition FILE_CREATE :: string where "FILE_CREATE = ''file_create''"
definition FILE_EDIT :: string where "FILE_EDIT = ''file_edit''"
definition FILE_DELETE :: string where "FILE_DELETE = ''file_delete''"
definition FILE_RENAME :: string where "FILE_RENAME = ''file_rename''"
definition DIRECTORY_CREATE :: string where "DIRECTORY_CREATE = ''directory_create''"
definition DIRECTORY_DELETE :: string where "DIRECTORY_DELETE = ''directory_delete''"
definition BASH_COMMAND :: string where "BASH_COMMAND = ''bash_command''"

definition OperationType :: "string list" where
  "OperationType =
     [FILE_CREATE, FILE_EDIT, FILE_DELETE, FILE_RENAME,
      DIRECTORY_CREATE, DIRECTORY_DELETE, BASH_COMMAND]"

subsection \<open>Turn\<close>

record turn =
  turn_id :: string
  turn_timestamp :: date
  description :: string
  operations :: "string list"
  startTime :: date
  endTime :: "date option"
  completed :: bool

record turn_json =
  tj_id :: string
  tj_timestamp :: isostring
  tj_description :: "string option"
  tj_operations :: "string list option"
  tj_startTime :: isostring
  tj_endTime :: "isostring option"
  tj_completed :: "bool option"

text \<open>\<open>Turn.addOperation\<close>: push unless already included.\<close>

definition addOperation :: "string \<Rightarrow> turn \<Rightarrow> turn" where
  "addOperation operationId t =
     (if operationId \<notin> set (operations t)
      then t\<lparr>operations := operations t @ [operationId]\<rparr>
      else t)"

text \<open>\<open>Turn.complete\<close>; \<open>now\<close> is the reading of the clock taken by \<open>new Date()\<close>.\<close>

definition complete :: "date \<Rightarrow> turn \<Rightarrow> turn" where
  "complete now t = t\<lparr>endTime := Some now, completed := True\<rparr>"

definition getDuration :: "turn \<Rightarrow> int option" where
  "getDuration t = (case endTime t of None \<Rightarrow> None | Some e \<Rightarrow> Some (e - startTime t))"

text \<open>\<open>Turn.toJSON\<close>.\<close>

definition turn_toJSON :: "turn \<Rightarrow> turn_json" where
  "turn_toJSON t =
     \<lparr> tj_id = turn_id t,
       tj_timestamp = toISOString (turn_timestamp t),
       tj_description = Some (description t),
       tj_operations = Some (operations t),
       tj_startTime = toISOString (startTime t),
       tj_endTime = (case endTime t of None \<Rightarrow> None | Some e \<Rightarrow> Some (toISOString e)),
       tj_completed = Some (completed t) \<rparr>"

text \<open>
  \<open>Turn.fromJSON\<close>. The constructor's own id and clock readings are all overwritten, so
  they do not show in the result; \<open>description\<close> defaults to the empty string,
  \<open>operations\<close> to the empty array, \<open>completed\<close> to false.
\<close>

definition turn_fromJSON :: "turn_json \<Rightarrow> turn" where
  "turn_fromJSON json =
     \<lparr> turn_id = tj_id json,
       turn_timestamp = newDateFrom (tj_timestamp json),
       description = (case tj_description json of None \<Rightarrow> [] | Some d \<Rightarrow> d),
       operations = (case tj_operations json of None \<Rightarrow> [] | Some os \<Rightarrow> os),
       startTime = newDateFrom (tj_startTime json),
       endTime = (case tj_endTime json of None \<Rightarrow> None | Some e \<Rightarrow> Some (newDateFrom e)),
       completed = (case tj_completed json of None \<Rightarrow> False | Some b \<Rightarrow> b) \<rparr>"

subsection \<open>Description generation\<close>

text \<open>Decimal rendering of a count, as a template literal does it.\<close>

definition digit :: "nat \<Rightarrow> char" where
  "digit n = ''0123456789'' ! n"

fun show_nat :: "nat \<Rightarrow> string" where
  "show_nat n = (if n < 10 then [digit n] else show_nat (n div 10) @ [digit (n mod 10)])"

text \<open>\<open>String.prototype.startsWith\<close>.\<close>

definition startsWith :: "string \<Rightarrow> string \<Rightarrow> bool" where
  "startsWith s p = (take (length p) s = p)"

text \<open>\<open>Array.prototype.join\<close>.\<close>

fun join :: "string \<Rightarrow> string list \<Rightarrow> string" where
  "join sep [] = []"
| "join sep [p] = p"
| "join sep (p # q # ps) = p @ sep @ join sep (q # ps)"

text \<open>\<open>[...new Set(xs)]\<close>: the distinct elements in order of first occurrence.\<close>

fun uniq :: "'a list \<Rightarrow> 'a list" where
  "uniq [] = []"
| "uniq (x # xs) = x # uniq (filter (\<lambda>y. y \<noteq> x) xs)"

text \<open>\<open>Turn.generateDescription\<close>.\<close>

definition single_type_description :: "string \<Rightarrow> nat \<Rightarrow> string" where
  "single_type_description type cnt =
     (if type = ''file_create'' then
        (if cnt = 1 then ''Created 1 file'' else ''Created '' @ show_nat cnt @ '' files'')
      else if type = ''file_edit'' then
        (if cnt = 1 then ''Edited 1 file'' else ''Edited '' @ show_nat cnt @ '' files'')
      else if type = ''file_delete'' then
        (if cnt = 1 then ''Deleted 1 file'' else ''Deleted '' @ show_nat cnt @ '' files'')
      else if type = ''bash_command'' then
        (if cnt = 1 then ''Ran 1 command'' else ''Ran '' @ show_nat cnt @ '' commands'')
      else ''Performed '' @ show_nat cnt @ '' '' @ type @ '' operations'')"

definition mixed_description :: "string list \<Rightarrow> string" where
  "mixed_description operationTypes =
     (let fileOps = length (filter (\<lambda>t. startsWith t ''file_'') operationTypes);
          bashOps = length (filter (\<lambda>t. t = ''bash_command'') operationTypes);
          parts = (if fileOps > 0
                   then [show_nat fileOps @ '' file op'' @ (if fileOps = 1 then [] else ''s'')]
                   else [])
                @ (if bashOps > 0
                   then [show_nat bashOps @ '' command'' @ (if bashOps = 1 then [] else ''s'')]
                   else [])
      in join '' + '' parts)"

definition generateDescription :: "'d operation list \<Rightarrow> string" where
  "generateDescription ops =
     (if length ops = 0 then ''Empty turn''
      else
        let operationTypes = map op_type ops;
            uniqueTypes = uniq operationTypes
        in if length uniqueTypes = 1
           then single_type_description (hd uniqueTypes) (length ops)
           else mixed_description operationTypes)"


section \<open>TurnManager\<close>

text \<open>
  The state of a \<open>TurnManager\<close> together with the ports it reaches:
  \<^item> \<open>turns\<close> is the \<open>Map\<close> from turn id to Turn, in insertion order (\<open>Map.set\<close> is
    \<open>AList.update\<close>, \<open>Map.delete\<close> is \<open>AList.delete\<close>, \<open>Map.get\<close> is \<open>map_of\<close>);
  \<^item> \<open>operationToTurn\<close> is the reverse index from operation id to turn id;
  \<^item> \<open>turnsFile\<close> is the \<open>turns\<close> array of the persisted document (\<open>None\<close>: no file yet);
    \<open>writable\<close> tells whether \<open>fs.writeFile\<close> succeeds;
  \<^item> \<open>uuids\<close> and \<open>clock\<close> are the values that successive calls of
    \<open>crypto.randomUUID()\<close> and \<open>new Date()\<close> return, with the number of calls made so far.

  A reference to a Turn object held in a local variable is modelled by the turn's id, the key
  under which the object sits in \<open>turns\<close>; this is exact as long as \<open>randomUUID\<close> does not
  return an id twice, which the theorems that depend on it assume.
\<close>

datatype error = WriteFailed

record tm_state =
  turns :: "(string \<times> turn) list"
  operationToTurn :: "(string \<times> string) list"
  turnsFile :: "turn_json list option"
  writable :: bool
  uuids :: "nat \<Rightarrow> string"
  uuidCalls :: nat
  clock :: "nat \<Rightarrow> date"
  clockReads :: nat

definition randomUUID :: "tm_state \<Rightarrow> string \<times> tm_state" where
  "randomUUID s = (uuids s (uuidCalls s), s\<lparr>uuidCalls := Suc (uuidCalls s)\<rparr>)"

definition newDate :: "tm_state \<Rightarrow> date \<times> tm_state" where
  "newDate s = (clock s (clockReads s), s\<lparr>clockReads := Suc (clockReads s)\<rparr>)"

text \<open>The constructor of \<open>Turn\<close>: a fresh id and two readings of the clock.\<close>

definition newTurn :: "string \<Rightarrow> tm_state \<Rightarrow> turn \<times> tm_state" where
  "newTurn desc s =
     (let (i, s1) = randomUUID s;
          (ts, s2) = newDate s1;
          (st, s3) = newDate s2
      in (\<lparr> turn_id = i, turn_timestamp = ts, description = desc, operations = [],
             startTime = st, endTime = None, completed = False \<rparr>, s3))"

text \<open>\<open>saveTurns\<close>: the whole map is written, or the write fails and the call throws.\<close>

definition saveTurns :: "tm_state \<Rightarrow> error + tm_state" where
  "saveTurns s =
     (if writable s
      then Inr (s\<lparr>turnsFile := Some (map (\<lambda>(k, t). turn_toJSON t) (turns s))\<rparr>)
      else Inl WriteFailed)"

text \<open>\<open>createTurn\<close> returns the new Turn; the model returns its id.\<close>

definition createTurn :: "string \<Rightarrow> tm_state \<Rightarrow> string \<times> tm_state" where
  "createTurn desc s =
     (let (t, s1) = newTurn desc s
      in (turn_id t, s1\<lparr>turns := AList.update (turn_id t) t (turns s1)\<rparr>))"

definition getTurn :: "tm_state \<Rightarrow> string \<Rightarrow> turn option" where
  "getTurn s turnId = map_of (turns s) turnId"

definition addOperationToTurn :: "string \<Rightarrow> string \<Rightarrow> tm_state \<Rightarrow> tm_state" where
  "addOperationToTurn operationId turnId s =
     (case map_of (turns s) turnId of
        Some t \<Rightarrow>
          s\<lparr>turns := AList.update turnId (addOperation operationId t) (turns s),
            operationToTurn := AList.update operationId turnId (operationToTurn s)\<rparr>
      | None \<Rightarrow> s)"

definition getTurnForOperation :: "tm_state \<Rightarrow> string \<Rightarrow> string option" where
  "getTurnForOperation s operationId = map_of (operationToTurn s) operationId"

text \<open>
  Truthiness of the result of \<open>getTurnForOperation\<close>: \<open>undefined\<close> and the empty string
  are falsy.
\<close>

definition truthy :: "string option \<Rightarrow> bool" where
  "truthy v = (case v of None \<Rightarrow> False | Some x \<Rightarrow> x \<noteq> [])"

text \<open>\<open>turn.complete()\<close> on the Turn referred to by \<open>turnId\<close>.\<close>

definition completeRef :: "string \<Rightarrow> tm_state \<Rightarrow> tm_state" where
  "completeRef turnId s =
     (let (now, s1) = newDate s
      in s1\<lparr>turns := AList.map_entry turnId (complete now) (turns s1)\<rparr>)"

definition completeTurn :: "string \<Rightarrow> tm_state \<Rightarrow> error + tm_state" where
  "completeTurn turnId s =
     (case map_of (turns s) turnId of
        Some t \<Rightarrow> saveTurns (completeRef turnId s)
      | None \<Rightarrow> Inr s)"

text \<open>
  The loop of \<open>groupOperationsIntoTurns\<close> over the sorted operations. The loop state is the
  manager, the array \<open>turns\<close> of the Turns created so far, \<open>currentTurn\<close> and \<open>lastOpTime\<close>;
  \<open>group_body\<close> is one iteration. Where no new turn is needed \<open>currentTurn\<close> is not
  \<open>null\<close>, so \<open>the currentTurn\<close> is the Turn it refers to.
\<close>

definition needNewTurn :: "string option \<Rightarrow> date option \<Rightarrow> date \<Rightarrow> int \<Rightarrow> bool" where
  "needNewTurn currentTurn lastOpTime opTime timeGapMs =
     (currentTurn = None \<or>
      (case lastOpTime of None \<Rightarrow> False | Some l \<Rightarrow> opTime - l > timeGapMs))"

type_synonym group_state = "tm_state \<times> string list \<times> string option \<times> date option"

definition group_body :: "int \<Rightarrow> 'd operation \<Rightarrow> group_state \<Rightarrow> group_state" where
  "group_body timeGapMs operation st =
     (case st of (s, created, currentTurn, lastOpTime) \<Rightarrow>
        let opTime = op_timestamp operation;
            (s2, created2, cur2) =
              (if needNewTurn currentTurn lastOpTime opTime timeGapMs
               then
                 let s1 = (case currentTurn of Some c \<Rightarrow> completeRef c s | None \<Rightarrow> s);
                     (n, s2) = createTurn [] s1
                 in (s2, created @ [n], n)
               else (s, created, the currentTurn))
        in (addOperationToTurn (op_id operation) cur2 s2, created2, Some cur2, Some opTime))"

definition group_loop :: "int \<Rightarrow> 'd operation list \<Rightarrow> group_state \<Rightarrow> group_state" where
  "group_loop timeGapMs sortedOps st = fold (group_body timeGapMs) sortedOps st"

text \<open>The loop that sets the description of every created Turn.\<close>

definition describeTurn :: "'d operation list \<Rightarrow> string \<Rightarrow> tm_state \<Rightarrow> tm_state" where
  "describeTurn ungroupedOps turnId s =
     s\<lparr>turns :=
         AList.map_entry turnId
           (\<lambda>t. t\<lparr>description :=
                    generateDescription
                      (filter (\<lambda>op. op_id op \<in> set (operations t)) ungroupedOps)\<rparr>)
           (turns s)\<rparr>"

definition groupOperationsIntoTurns ::
  "'d operation list \<Rightarrow> int \<Rightarrow> tm_state \<Rightarrow> error + (string list \<times> tm_state)" where
  "groupOperationsIntoTurns ops timeGapMs s =
     (if length ops = 0 then Inr ([], s)
      else
        let ungroupedOps = filter (\<lambda>op. \<not> truthy (getTurnForOperation s (op_id op))) ops
        in if length ungroupedOps = 0 then Inr ([], s)
           else
             let sortedOps = sort_key op_timestamp ungroupedOps;
                 (s1, created, currentTurn, lastOpTime) =
                   group_loop timeGapMs sortedOps (s, [], None, None);
                 s2 = (case currentTurn of Some c \<Rightarrow> completeRef c s1 | None \<Rightarrow> s1);
                 s3 = fold (describeTurn ungroupedOps) created s2
             in case saveTurns s3 of
                  Inl e \<Rightarrow> Inl e
                | Inr s4 \<Rightarrow> Inr (created, s4))"

text \<open>\<open>removeOperationsFromTurns\<close>: the body of the loop, then the loop and the save.\<close>

definition removeOperation :: "string \<Rightarrow> tm_state \<Rightarrow> tm_state" where
  "removeOperation opId s =
     (let turnId = map_of (operationToTurn s) opId
      in if truthy turnId
         then
           let s1 = (case map_of (turns s) (the turnId) of
                       Some t \<Rightarrow>
                         let t' = t\<lparr>operations := filter (\<lambda>i. i \<noteq> opId) (operations t)\<rparr>
                         in if length (operations t') = 0
                            then s\<lparr>turns := AList.delete (the turnId) (turns s)\<rparr>
                            else s\<lparr>turns := AList.update (the turnId) t' (turns s)\<rparr>
                     | None \<Rightarrow> s)
           in s1\<lparr>operationToTurn := AList.delete opId (operationToTurn s1)\<rparr>
         else s)"

definition removeOperationsFromTurns :: "string list \<Rightarrow> tm_state \<Rightarrow> error + tm_state" where
  "removeOperationsFromTurns operationIds s = saveTurns (fold removeOperation operationIds s)"


section \<open>TurnUndoManager\<close>

text \<open>
  \<open>UndoManager.undo\<close> is an external collaborator: a call on an operation either returns a
  result object or throws an error with a message, and it may change the world \<open>'w\<close> it
  works on (the file system, its own state).
\<close>

record undo_result =
  success :: bool
  message :: string
  backupPath :: "string option"

datatype undo_outcome = Returned undo_result | Thrown string

type_synonym ('d, 'w) undo_delegate = "'d operation \<Rightarrow> 'w \<Rightarrow> undo_outcome \<times> 'w"

text \<open>The object a batch returns; the early failures carry \<open>success\<close> and \<open>message\<close> only.\<close>

record batch_result =
  br_success :: bool
  br_message :: string
  br_successCount :: "nat option"
  br_failCount :: "nat option"
  br_results :: "undo_result list option"

definition failure :: "string \<Rightarrow> batch_result" where
  "failure msg =
     \<lparr> br_success = False, br_message = msg, br_successCount = None, br_failCount = None,
       br_results = None \<rparr>"

text \<open>
  The \<open>for\<close> loop of \<open>undoTurn\<close> with its \<open>try\<close>/\<open>catch\<close>: the loop state is the world of the
  delegate, \<open>successCount\<close>, \<open>failCount\<close> and \<open>results\<close>; \<open>undo_body\<close> is one iteration.
\<close>

type_synonym 'w undo_state = "'w \<times> nat \<times> nat \<times> undo_result list"

definition undo_body ::
  "('d, 'w) undo_delegate \<Rightarrow> 'd operation \<Rightarrow> 'w undo_state \<Rightarrow> 'w undo_state" where
  "undo_body undo operation st =
     (case st of (w, successCount, failCount, results) \<Rightarrow>
        (case undo operation w of
           (Returned result, w') \<Rightarrow>
             (if success result
              then (w', successCount + 1, failCount, results @ [result])
              else (w', successCount, failCount + 1, results @ [result]))
         | (Thrown msg, w') \<Rightarrow>
             (w', successCount, failCount + 1,
              results @ [\<lparr> success = False, message = msg, backupPath = None \<rparr>])))"

definition undo_loop ::
  "('d, 'w) undo_delegate \<Rightarrow> 'd operation list \<Rightarrow> 'w undo_state \<Rightarrow> 'w undo_state" where
  "undo_loop undo turnOperations st = fold (undo_body undo) turnOperations st"

text \<open>\<open>turnOperations.filter((_, index) => results[index]?.success).map(op => op.id)\<close>.\<close>

definition successfulOpIds :: "'d operation list \<Rightarrow> undo_result list \<Rightarrow> string list" where
  "successfulOpIds turnOperations results =
     map (\<lambda>(op, index). op_id op)
       (filter (\<lambda>(op, index). index < length results \<and> success (results ! index))
          (zip turnOperations [0..<length turnOperations]))"

text \<open>The steps of a batch after the operations are resolved, shared by the batches.\<close>

definition turnOperationsOf :: "turn \<Rightarrow> 'd operation list \<Rightarrow> 'd operation list" where
  "turnOperationsOf t allOperations =
     sort_key (\<lambda>op. - op_timestamp op)
       (filter (\<lambda>op. op_id op \<in> set (operations t)) allOperations)"

definition undoTurn ::
  "('d, 'w) undo_delegate \<Rightarrow> string \<Rightarrow> 'd operation list \<Rightarrow> 'w \<times> tm_state
   \<Rightarrow> error + (batch_result \<times> 'w \<times> tm_state)" where
  "undoTurn undo turnId allOperations ws =
     (let (w, s) = ws
      in case getTurn s turnId of
           None \<Rightarrow> Inr (failure (''Turn '' @ turnId @ '' not found''), w, s)
         | Some t \<Rightarrow>
             (let turnOperations = turnOperationsOf t allOperations
              in if length turnOperations = 0
                 then Inr (failure ''No operations found in this turn'', w, s)
                 else
                   let (w', successCount, failCount, results) =
                         undo_loop undo turnOperations (w, 0, 0, []);
                       res = \<lparr> br_success = successCount > 0,
                               br_message = ''Turn undo completed: '' @ show_nat successCount
                                 @ '' successful, '' @ show_nat failCount @ '' failed'',
                               br_successCount = Some successCount,
                               br_failCount = Some failCount,
                               br_results = Some results \<rparr>
                   in if successCount > 0
                      then
                        (case removeOperationsFromTurns
                                (successfulOpIds turnOperations results) s of
                           Inl e \<Rightarrow> Inl e
                         | Inr s' \<Rightarrow> Inr (res, w', s'))
                      else Inr (res, w', s)))"

text \<open>\<open>autoGroupOperations\<close> returns the number of turns created and of operations given.\<close>

definition autoGroupOperations ::
  "'d operation list \<Rightarrow> int \<Rightarrow> tm_state \<Rightarrow> error + ((nat \<times> nat) \<times> tm_state)" where
  "autoGroupOperations ops timeGapMinutes s =
     (let timeGapMs = timeGapMinutes * 60 * 1000
      in case groupOperationsIntoTurns ops timeGapMs s of
           Inl e \<Rightarrow> Inl e
         | Inr (created, s') \<Rightarrow> Inr ((length created, length ops), s'))"

text \<open>\<open>createTurnWithOperations\<close> returns the id of the turn and the number of ids given.\<close>

definition createTurnWithOperations ::
  "string list \<Rightarrow> string \<Rightarrow> 'd operation list \<Rightarrow> tm_state
   \<Rightarrow> error + ((string \<times> nat) \<times> tm_state)" where
  "createTurnWithOperations operationIds desc allOperations s =
     (let (n, s1) = createTurn desc s;
          s2 = fold (\<lambda>opId. addOperationToTurn opId n) operationIds s1;
          s3 = (if desc = []
                then s2\<lparr>turns :=
                         AList.map_entry n
                           (\<lambda>t. t\<lparr>description :=
                                    generateDescription
                                      (filter (\<lambda>op. op_id op \<in> set operationIds)
                                         allOperations)\<rparr>)
                           (turns s2)\<rparr>
                else s2);
          s4 = completeRef n s3
      in case saveTurns s4 of
           Inl e \<Rightarrow> Inl e
         | Inr s5 \<Rightarrow> Inr ((n, length operationIds), s5))"

subsection \<open>Cascading undo\<close>

text \<open>
  Modelled from the spec: \<open>resolveCascade\<close> and \<open>undoTurnWithCascading\<close>, which the command
  line calls but which are missing from the \<open>TurnUndoManager\<close> at hand. The cascade of a
  turn \<open>T\<close> is every turn of the store whose \<open>startTime\<close> is at least that of \<open>T\<close>, latest
  first; its operations are the given operations that are members of one of these turns,
  by timestamp descending. The batch is the one of \<open>undoTurn\<close>: not found when the turn id is
  unresolved, empty when no operation is resolved, otherwise every operation in the resolved
  order, and the ids of those that succeeded detached afterwards.
\<close>

definition resolveCascade ::
  "tm_state \<Rightarrow> string \<Rightarrow> 'd operation list \<Rightarrow> (turn list \<times> 'd operation list) option" where
  "resolveCascade s turnId allOperations =
     (case getTurn s turnId of
        None \<Rightarrow> None
      | Some t \<Rightarrow>
          let cascade =
                sort_key (\<lambda>u. - startTime u)
                  (filter (\<lambda>u. startTime u \<ge> startTime t) (map snd (turns s)));
              ops =
                sort_key (\<lambda>op. - op_timestamp op)
                  (filter (\<lambda>op. \<exists>u \<in> set cascade. op_id op \<in> set (operations u))
                     allOperations)
          in Some (cascade, ops))"

datatype cascade_result =
  NotFound
| Empty
| Batch bool nat nat "undo_result list"

definition undoTurnWithCascading ::
  "('d, 'w) undo_delegate \<Rightarrow> string \<Rightarrow> 'd operation list \<Rightarrow> 'w \<times> tm_state
   \<Rightarrow> error + (cascade_result \<times> 'w \<times> tm_state)" where
  "undoTurnWithCascading undo turnId allOperations ws =
     (let (w, s) = ws
      in case resolveCascade s turnId allOperations of
           None \<Rightarrow> Inr (NotFound, w, s)
         | Some (cascade, ops) \<Rightarrow>
             (if length ops = 0 then Inr (Empty, w, s)
              else
                let (w', successCount, failCount, results) = undo_loop undo ops (w, 0, 0, []);
                    res = Batch (successCount > 0) successCount failCount results
                in if successCount > 0
                   then
                     (case removeOperationsFromTurns (successfulOpIds ops results) s of
                        Inl e \<Rightarrow> Inl e
                      | Inr s' \<Rightarrow> Inr (res, w', s'))
                   else Inr (res, w', s)))"

text \<open>
  A delegate that also records, in order, the operations it is called on. Running a batch
  with \<open>logged undo\<close> from an empty log tells which operations were attempted.
\<close>

definition logged :: "('d, 'w) undo_delegate \<Rightarrow> ('d, 'w \<times> 'd operation list) undo_delegate" where
  "logged undo operation wl =
     (let (w, log) = wl; (r, w') = undo operation w in (r, (w', log @ [operation])))"

section \<open>What a batch does, operation by operation\<close>

text \<open>
  The outcomes of the delegate on the operations of a batch, called one after the other,
  each call in the world the previous one left; the entry of \<open>results\<close> an outcome gives;
  and whether the undo of an operation succeeded.
\<close>

fun outcomes :: "('d, 'w) undo_delegate \<Rightarrow> 'd operation list \<Rightarrow> 'w \<Rightarrow> undo_outcome list" where
  "outcomes undo [] w = []"
| "outcomes undo (operation # rest) w =
     (case undo operation w of (r, w') \<Rightarrow> r # outcomes undo rest w')"

definition result_of :: "undo_outcome \<Rightarrow> undo_result" where
  "result_of r =
     (case r of
        Returned result \<Rightarrow> result
      | Thrown msg \<Rightarrow> \<lparr> success = False, message = msg, backupPath = None \<rparr>)"

definition succeeded :: "undo_outcome \<Rightarrow> bool" where
  "succeeded r = (case r of Returned result \<Rightarrow> success result | Thrown msg \<Rightarrow> False)"

section \<open>Properties of states\<close>

text \<open>\<open>isMember s opId turnId\<close>: the store has a turn \<open>turnId\<close> whose list holds \<open>opId\<close>.\<close>

definition isMember :: "tm_state \<Rightarrow> string \<Rightarrow> string \<Rightarrow> bool" where
  "isMember s opId turnId =
     (case map_of (turns s) turnId of Some t \<Rightarrow> opId \<in> set (operations t) | None \<Rightarrow> False)"

text \<open>
  The reverse index agrees with the membership of the turns: an operation id is mapped to
  a turn exactly if that turn is in the store and lists it. As the index maps an id to one
  turn, an id is then a member of at most one turn. The ids of the turns are truthy.
\<close>

definition consistent :: "tm_state \<Rightarrow> bool" where
  "consistent s =
     ((\<forall>k \<in> set (map fst (turns s)).
         k \<noteq> [] \<and>
         (case map_of (turns s) k of
            Some t \<Rightarrow> \<forall>opId \<in> set (operations t). map_of (operationToTurn s) opId = Some k
          | None \<Rightarrow> True)) \<and>
      (\<forall>opId \<in> set (map fst (operationToTurn s)).
         case map_of (operationToTurn s) opId of
           Some k \<Rightarrow> isMember s opId k
         | None \<Rightarrow> True))"

text \<open>
  \<open>randomUUID\<close> keeps its promise from now on: the ids it is going to return are truthy,
  are not ids of turns in the store, and are pairwise different.
\<close>

definition fresh_uuids :: "tm_state \<Rightarrow> bool" where
  "fresh_uuids s =
     (\<forall>n \<ge> uuidCalls s.
        uuids s n \<noteq> [] \<and> uuids s n \<notin> fst ` set (turns s) \<and>
        (\<forall>m \<ge> uuidCalls s. uuids s m = uuids s n \<longrightarrow> m = n))"

text \<open>
  In a state of the grouping loop, \<open>currentTurn\<close> refers to a turn of the store with a
  truthy id.
\<close>

definition current_in_store :: "group_state \<Rightarrow> bool" where
  "current_in_store st =
     (case st of (s, created, currentTurn, lastOpTime) \<Rightarrow>
        (case currentTurn of
           None \<Rightarrow> True
         | Some c \<Rightarrow> c \<noteq> [] \<and> c \<in> fst ` set (turns s)))"

text \<open>The persisted document is the serialisation of the turns in memory.\<close>

definition persisted :: "tm_state \<Rightarrow> bool" where
  "persisted s = (turnsFile s = Some (map (\<lambda>(k, t). turn_toJSON t) (turns s)))"

text \<open>The operations are given in reverse chronological order.\<close>

definition descending :: "'d operation list \<Rightarrow> bool" where
  "descending ops = sorted_wrt (\<lambda>a b. op_timestamp a \<ge> op_timestamp b) ops"

text \<open>
  The phrase of one bucket of a mixed description, absent when the bucket is empty, and the
  mixed description as the specification words it: every file and directory mutation in
  the bucket of file operations, every bash command in the bucket of commands.
\<close>

definition bucket_phrase :: "nat \<Rightarrow> string \<Rightarrow> string list" where
  "bucket_phrase n noun =
     (if n > 0 then [show_nat n @ '' '' @ noun @ (if n = 1 then [] else ''s'')] else [])"

definition claimed_mixed_description :: "'d operation list \<Rightarrow> string" where
  "claimed_mixed_description ops =
     join '' + ''
       (bucket_phrase
          (length (filter (\<lambda>op. op_type op \<in> {FILE_CREATE, FILE_EDIT, FILE_DELETE, FILE_RENAME,
                                               DIRECTORY_CREATE, DIRECTORY_DELETE}) ops))
          ''file op''
        @ bucket_phrase (length (filter (\<lambda>op. op_type op = BASH_COMMAND) ops)) ''command'')"

section \<open>Example inputs\<close>

text \<open>
  A manager after \<open>init\<close> on an empty directory, with a supply of ids (\<open>turn-\<close>,
  \<open>turn-i\<close>, \<open>turn-ii\<close>, ...) and a clock, and four operations at 0 s, 60 s, 120 s and
  400 s.
\<close>

definition fresh_manager :: tm_state where
  "fresh_manager =
     \<lparr> turns = [], operationToTurn = [], turnsFile = None, writable = True,
       uuids = (\<lambda>n. ''turn-'' @ replicate n CHR ''i''), uuidCalls = 0,
       clock = (\<lambda>n. 1000000 + int n), clockReads = 0 \<rparr>"

definition mk_op :: "string \<Rightarrow> date \<Rightarrow> string \<Rightarrow> unit operation" where
  "mk_op i t ty =
     \<lparr> op_id = i, op_timestamp = t, op_type = ty, op_data = (), undone = False,
       op_turnId = None \<rparr>"

definition four_ops :: "unit operation list" where
  "four_ops =
     [mk_op ''a'' 0 FILE_CREATE, mk_op ''b'' 60000 FILE_EDIT,
      mk_op ''c'' 120000 BASH_COMMAND, mk_op ''d'' 400000 FILE_EDIT]"

definition mixed_ops :: "unit operation list" where
  "mixed_ops =
     [mk_op ''a'' 0 FILE_RENAME, mk_op ''b'' 1 DIRECTORY_CREATE,
      mk_op ''c'' 2 BASH_COMMAND, mk_op ''d'' 3 BASH_COMMAND]"

definition directory_ops :: "unit operation list" where
  "directory_ops = [mk_op ''a'' 0 DIRECTORY_CREATE, mk_op ''b'' 1 BASH_COMMAND]"

text \<open>
  Two turns \<open>turn-\<close> and \<open>turn-i\<close> made by \<open>createTurn\<close>, the operation \<open>x\<close> added to the
  first of them.
\<close>

definition two_turns :: tm_state where
  "two_turns =
     addOperationToTurn ''x'' ''turn-''
       (snd (createTurn [] (snd (createTurn [] fresh_manager))))"

text \<open>
  Three operations \<open>x\<close>, \<open>y\<close>, \<open>z\<close>; a manager that tracks \<open>x\<close> and \<open>y\<close> in the turn \<open>turn-\<close>
  and \<open>z\<close> in the later turn \<open>turn-i\<close>; and a delegate that counts its calls, throws on \<open>y\<close>
  and succeeds on every other operation.
\<close>

definition three_ops :: "unit operation list" where
  "three_ops = [mk_op ''x'' 10 FILE_EDIT, mk_op ''y'' 20 FILE_CREATE, mk_op ''z'' 30 BASH_COMMAND]"

definition tracked :: tm_state where
  "tracked = addOperationToTurn ''z'' ''turn-i'' (addOperationToTurn ''y'' ''turn-'' two_turns)"

definition first_turn :: turn where
  "first_turn =
     \<lparr> turn_id = ''turn-'', turn_timestamp = 1000000, description = [],
       operations = [''x'', ''y''], startTime = 1000001, endTime = None, completed = False \<rparr>"

definition second_turn :: turn where
  "second_turn =
     \<lparr> turn_id = ''turn-i'', turn_timestamp = 1000002, description = [],
       operations = [''z''], startTime = 1000003, endTime = None, completed = False \<rparr>"

definition flaky :: "(unit, nat) undo_delegate" where
  "flaky operation calls =
     (if op_id operation = ''y'' then (Thrown ''EACCES'', Suc calls)
      else (Returned \<lparr> success = True, message = ''File edit reverted'', backupPath = None \<rparr>,
            Suc calls))"

text \<open>
  Three operations: \<open>q\<close> exactly 300 s after \<open>p\<close>, and \<open>r\<close> 300.001 s after \<open>q\<close>.
\<close>

definition boundary_ops :: "unit operation list" where
  "boundary_ops =
     [mk_op ''r'' 600001 BASH_COMMAND, mk_op ''p'' 0 FILE_EDIT, mk_op ''q'' 300000 FILE_EDIT]"

text \<open>
  The manager \<open>two_turns\<close> after \<open>x\<close>, already in \<open>turn-\<close>, is added to \<open>turn-i\<close> as well; and
  a delegate that counts its calls and succeeds on every operation.
\<close>

definition reassigned :: tm_state where
  "reassigned = addOperationToTurn ''x'' ''turn-i'' two_turns"

definition reliable :: "(unit, nat) undo_delegate" where
  "reliable operation calls =
     (Returned \<lparr> success = True, message = ''File edit reverted'', backupPath = None \<rparr>,
      Suc calls)"

definition only_directories :: "unit operation list" where
  "only_directories = [mk_op ''a'' 0 DIRECTORY_CREATE, mk_op ''b'' 1 DIRECTORY_DELETE]"

declare show_nat.simps [simp del]


section \<open>Evaluation and basic facts\<close>

lemmas OperationType_defs = FILE_CREATE_def FILE_EDIT_def FILE_DELETE_def FILE_RENAME_def
  DIRECTORY_CREATE_def DIRECTORY_DELETE_def BASH_COMMAND_def OperationType_def

lemma show_nat_small: "n < 10 \<Longrightarrow> show_nat n = [digit n]"
  by (simp add: show_nat.simps)

lemma show_nat_1: "show_nat (Suc 0) = ''1''" and show_nat_2: "show_nat (Suc (Suc 0)) = ''2''"
  by (simp_all add: show_nat_small digit_def)

lemma set_uniq: "set (uniq xs) = set xs"
  by (induction xs rule: uniq.induct) auto

lemma distinct_uniq: "distinct (uniq xs)"
  by (induction xs rule: uniq.induct) (auto simp: set_uniq)

lemma length_uniq: "length (uniq xs) = card (set xs)"
  using distinct_card [OF distinct_uniq, of xs] by (simp add: set_uniq)

lemma mixed_types: "a \<in> set xs \<Longrightarrow> b \<in> set xs \<Longrightarrow> a \<noteq> b \<Longrightarrow> length (uniq xs) \<noteq> 1"
proof -
  assume a: "a \<in> set xs" and b: "b \<in> set xs" and ab: "a \<noteq> b"
  have "card {a, b} \<le> card (set xs)"
    by (rule card_mono) (use a b in auto)
  with ab show ?thesis by (simp add: length_uniq)
qed

lemma startsWith_file:
  assumes "t \<in> set OperationType"
  shows "startsWith t ''file_'' = (t \<in> {FILE_CREATE, FILE_EDIT, FILE_DELETE, FILE_RENAME})"
proof -
  from assms consider "t = FILE_CREATE" | "t = FILE_EDIT" | "t = FILE_DELETE"
    | "t = FILE_RENAME" | "t = DIRECTORY_CREATE" | "t = DIRECTORY_DELETE" | "t = BASH_COMMAND"
    unfolding OperationType_def by auto
  then show ?thesis
    by cases (simp_all add: OperationType_defs startsWith_def)
qed

lemma mixed_description_buckets:
  "mixed_description ts =
     join '' + ''
       (bucket_phrase (length (filter (\<lambda>t. startsWith t ''file_'') ts)) ''file op''
        @ bucket_phrase (length (filter (\<lambda>t. t = ''bash_command'') ts)) ''command'')"
  by (simp add: mixed_description_def bucket_phrase_def Let_def)

lemmas eval_defs =
  truthy_def getTurnForOperation_def getTurn_def needNewTurn_def createTurn_def newTurn_def
  randomUUID_def newDate_def addOperationToTurn_def addOperation_def completeRef_def
  complete_def describeTurn_def saveTurns_def group_loop_def group_body_def
  removeOperation_def removeOperationsFromTurns_def

section \<open>Serialisation\<close>

text \<open>
  C9. Serialising an Operation and reading it back gives the same id, timestamp, type,
  data, undone flag and turnId; serialising a Turn and reading it back gives the same id,
  the same operation ids in the same order, and the same timestamps.
\<close>

theorem roundtrip_fromJSON_toJSON:
  "op_id (op_fromJSON (op_toJSON op)) = op_id op \<and>
   op_timestamp (op_fromJSON (op_toJSON op)) = op_timestamp op \<and>
   op_type (op_fromJSON (op_toJSON op)) = op_type op \<and>
   op_data (op_fromJSON (op_toJSON op)) = op_data op \<and>
   undone (op_fromJSON (op_toJSON op)) = undone op \<and>
   op_turnId (op_fromJSON (op_toJSON op)) = op_turnId op \<and>
   turn_id (turn_fromJSON (turn_toJSON t)) = turn_id t \<and>
   operations (turn_fromJSON (turn_toJSON t)) = operations t \<and>
   turn_timestamp (turn_fromJSON (turn_toJSON t)) = turn_timestamp t \<and>
   startTime (turn_fromJSON (turn_toJSON t)) = startTime t \<and>
   endTime (turn_fromJSON (turn_toJSON t)) = endTime t"
  by (simp add: op_fromJSON_def op_toJSON_def turn_fromJSON_def turn_toJSON_def
      toISOString_def split: option.splits)

section \<open>Description generation\<close>

text \<open>
  C8 as stated fails: a directory mutation is counted in no bucket. For a
  \<open>directory_create\<close> and a \<open>bash_command\<close> the description is \<open>1 command\<close>, not
  \<open>1 file op + 1 command\<close>.
\<close>

theorem generateDescription_directory_counterexample:
  "generateDescription directory_ops \<noteq> claimed_mixed_description directory_ops"
  by (simp add: generateDescription_def claimed_mixed_description_def mixed_description_def
      bucket_phrase_def directory_ops_def mk_op_def OperationType_defs startsWith_def
      show_nat_1)

text \<open>
  C8 (amended). For operations of the seven types with more than one distinct type among
  them, the description counts the operations whose type starts with \<open>file_\<close>
  (\<open>file_create\<close>, \<open>file_edit\<close>, \<open>file_delete\<close>, \<open>file_rename\<close>) in the bucket of file
  operations and every \<open>bash_command\<close> in the bucket of commands, and joins the phrases of
  the non-empty buckets with \<open>" + "\<close>.
\<close>

theorem generateDescription_mixed:
  assumes "\<forall>op \<in> set ops. op_type op \<in> set OperationType"
    and "\<exists>a \<in> set ops. \<exists>b \<in> set ops. op_type a \<noteq> op_type b"
  shows "generateDescription ops =
     join '' + ''
       (bucket_phrase
          (length (filter (\<lambda>op. op_type op \<in> {FILE_CREATE, FILE_EDIT, FILE_DELETE, FILE_RENAME}) ops))
          ''file op''
        @ bucket_phrase (length (filter (\<lambda>op. op_type op = BASH_COMMAND) ops)) ''command'')"
proof -
  from assms(2) obtain a b where ab: "a \<in> set ops" "b \<in> set ops" "op_type a \<noteq> op_type b"
    by blast
  then have ne: "ops \<noteq> []" by auto
  have "length (uniq (map op_type ops)) \<noteq> 1"
    by (rule mixed_types [of "op_type a" _ "op_type b"]) (use ab in auto)
  with ne have g: "generateDescription ops = mixed_description (map op_type ops)"
    by (simp add: generateDescription_def Let_def)
  have f: "filter (\<lambda>op. startsWith (op_type op) ''file_'') ops =
           filter (\<lambda>op. op_type op \<in> {FILE_CREATE, FILE_EDIT, FILE_DELETE, FILE_RENAME}) ops"
    by (rule filter_cong) (use assms(1) startsWith_file in auto)
  show ?thesis
    unfolding g mixed_description_buckets
    by (simp add: length_filter_map comp_def f BASH_COMMAND_def)
qed

text \<open>
  C8 (amended) on an example: a \<open>file_rename\<close>, a \<open>directory_create\<close> and two
  \<open>bash_command\<close>s are described as one file operation and two commands.
\<close>

theorem generateDescription_mixed_witness:
  "list_all (\<lambda>op. op_type op \<in> set OperationType) mixed_ops \<and>
   (\<exists>a \<in> set mixed_ops. \<exists>b \<in> set mixed_ops. op_type a \<noteq> op_type b) \<and>
   generateDescription mixed_ops = ''1 file op + 2 commands''"
proof -
  have h1: "\<forall>op \<in> set mixed_ops. op_type op \<in> set OperationType"
    by (simp add: mixed_ops_def mk_op_def OperationType_defs)
  have h2: "\<exists>a \<in> set mixed_ops. \<exists>b \<in> set mixed_ops. op_type a \<noteq> op_type b"
    by (rule bexI [of _ "mk_op ''a'' 0 FILE_RENAME"], rule bexI [of _ "mk_op ''c'' 2 BASH_COMMAND"])
       (simp_all add: mixed_ops_def mk_op_def OperationType_defs)
  have "generateDescription mixed_ops = ''1 file op + 2 commands''"
    using generateDescription_mixed [OF h1 h2]
    by (simp add: mixed_ops_def mk_op_def OperationType_defs bucket_phrase_def show_nat_1
        show_nat_2)
  with h1 h2 show ?thesis by (simp add: list_all_iff)
qed

section \<open>The grouping example\<close>

text \<open>
  C2 as stated fails: the operation at 400 s is 280 s after the one at 120 s, which does
  not exceed the gap of 300 s, so no second turn is started.
\<close>

theorem group_four_ops_counterexample:
  "length (fst (projr (groupOperationsIntoTurns four_ops 300000 fresh_manager))) \<noteq> 2 \<and>
   map (\<lambda>(k, t). operations t)
     (turns (snd (projr (groupOperationsIntoTurns four_ops 300000 fresh_manager))))
     \<noteq> [[''a'', ''b'', ''c''], [''d'']]"
  by (simp add: groupOperationsIntoTurns_def four_ops_def mk_op_def fresh_manager_def
      eval_defs Let_def)

text \<open>
  C2 (amended). Grouping the four ungrouped operations at 0 s, 60 s, 120 s and 400 s with
  a gap of 300 s produces exactly one turn, which contains all four operations in this
  order; no write fails.
\<close>

theorem group_four_ops_one_turn:
  "\<not> isl (groupOperationsIntoTurns four_ops 300000 fresh_manager) \<and>
   length (fst (projr (groupOperationsIntoTurns four_ops 300000 fresh_manager))) = 1 \<and>
   map (\<lambda>(k, t). operations t)
     (turns (snd (projr (groupOperationsIntoTurns four_ops 300000 fresh_manager))))
     = [[''a'', ''b'', ''c'', ''d'']]"
  by (simp add: groupOperationsIntoTurns_def four_ops_def mk_op_def fresh_manager_def
      eval_defs Let_def)

section \<open>Adding to a turn that is not in the store\<close>

text \<open>
  C10. \<open>addOperationToTurn\<close> with a turn id that is not in the store changes nothing: the
  manager, hence every turn's list and the reverse index, is as before; the call has no
  error to report.
\<close>

theorem addOperationToTurn_unknown_turn:
  "getTurn s turnId = None \<Longrightarrow> addOperationToTurn operationId turnId s = s"
  by (simp add: addOperationToTurn_def getTurn_def)

text \<open>
  C10 on the example: the manager with two turns has no turn \<open>turn-7\<close>, and adding \<open>x\<close>
  to it leaves the manager as it is.
\<close>

theorem addOperationToTurn_unknown_turn_witness:
  "getTurn two_turns ''turn-7'' = None \<and>
   addOperationToTurn ''x'' ''turn-7'' two_turns = two_turns"
proof -
  have h: "getTurn two_turns ''turn-7'' = None"
    by (simp add: two_turns_def fresh_manager_def eval_defs Let_def)
  from addOperationToTurn_unknown_turn [OF h] h show ?thesis by simp
qed

section \<open>Consistency of the reverse index\<close>

lemma ball_keys:
  "(\<forall>k \<in> set (map fst al). P k) \<longleftrightarrow> (\<forall>k v. map_of al k = Some v \<longrightarrow> P k)"
proof -
  have "k \<in> set (map fst al) \<longleftrightarrow> (\<exists>v. map_of al k = Some v)" for k
    using map_of_eq_None_iff [of al k] by auto
  then show ?thesis by blast
qed

lemma consistent_iff:
  "consistent s \<longleftrightarrow>
     (\<forall>k t. map_of (turns s) k = Some t \<longrightarrow>
        k \<noteq> [] \<and> (\<forall>opId \<in> set (operations t). map_of (operationToTurn s) opId = Some k)) \<and>
     (\<forall>opId k. map_of (operationToTurn s) opId = Some k \<longrightarrow> isMember s opId k)"
  unfolding consistent_def ball_keys by simp

lemma isMember_iff:
  "isMember s opId k \<longleftrightarrow> (\<exists>t. map_of (turns s) k = Some t \<and> opId \<in> set (operations t))"
  by (simp add: isMember_def split: option.splits)

subsection \<open>removeOperation\<close>

lemma removeOperation_index:
  "map_of (operationToTurn (removeOperation opId s)) =
     (if truthy (map_of (operationToTurn s) opId)
      then (map_of (operationToTurn s))(opId := None)
      else map_of (operationToTurn s))"
  by (simp add: removeOperation_def Let_def delete_conv' split: option.splits)

lemma removeOperation_turns:
  "map_of (turns (removeOperation opId s)) =
     (case map_of (operationToTurn s) opId of
        None \<Rightarrow> map_of (turns s)
      | Some k \<Rightarrow>
          if k = [] then map_of (turns s)
          else (case map_of (turns s) k of
                  None \<Rightarrow> map_of (turns s)
                | Some t \<Rightarrow>
                    if filter (\<lambda>i. i \<noteq> opId) (operations t) = []
                    then (map_of (turns s))(k := None)
                    else (map_of (turns s))
                           (k \<mapsto> t\<lparr>operations := filter (\<lambda>i. i \<noteq> opId) (operations t)\<rparr>)))"
  by (simp add: removeOperation_def Let_def delete_conv' update_conv' truthy_def
      split: option.splits)

lemma removeOperation_consistent:
  assumes "consistent s"
  shows "consistent (removeOperation opId s)"
proof (cases "map_of (operationToTurn s) opId")
  case None
  then have "removeOperation opId s = s"
    by (simp add: removeOperation_def truthy_def)
  with assms show ?thesis by simp
next
  case (Some k)
  from assms have c1: "\<And>k t. map_of (turns s) k = Some t \<Longrightarrow> k \<noteq> []"
    and c2: "\<And>k t x. map_of (turns s) k = Some t \<Longrightarrow> x \<in> set (operations t)
               \<Longrightarrow> map_of (operationToTurn s) x = Some k"
    and c3: "\<And>x k. map_of (operationToTurn s) x = Some k \<Longrightarrow>
               \<exists>t. map_of (turns s) k = Some t \<and> x \<in> set (operations t)"
    unfolding consistent_iff isMember_iff by blast+
  from c3 [OF Some] obtain t where t: "map_of (turns s) k = Some t" "opId \<in> set (operations t)"
    by blast
  from c1 [OF t(1)] have k: "k \<noteq> []" .
  have idx: "map_of (operationToTurn (removeOperation opId s)) =
               (map_of (operationToTurn s))(opId := None)"
    using Some k by (simp add: removeOperation_index truthy_def)
  show ?thesis
  proof (cases "filter (\<lambda>i. i \<noteq> opId) (operations t) = []")
    case True
    then have all: "\<And>x. x \<in> set (operations t) \<Longrightarrow> x = opId"
      by (auto simp: filter_empty_conv)
    have tu: "map_of (turns (removeOperation opId s)) = (map_of (turns s))(k := None)"
      using Some k t True by (simp add: removeOperation_turns)
    show ?thesis
      unfolding consistent_iff isMember_iff idx tu
    proof (intro conjI allI impI ballI)
      fix k' t' assume "((map_of (turns s))(k := None)) k' = Some t'"
      then show "k' \<noteq> []" using c1 by (auto split: if_splits)
    next
      fix k' t' x assume a: "((map_of (turns s))(k := None)) k' = Some t'" "x \<in> set (operations t')"
      then have kk: "k' \<noteq> k" "map_of (turns s) k' = Some t'" by (auto split: if_splits)
      from c2 [OF kk(2) a(2)] have "map_of (operationToTurn s) x = Some k'" .
      with Some kk(1) show "((map_of (operationToTurn s))(opId := None)) x = Some k'"
        by auto
    next
      fix x k' assume a: "((map_of (operationToTurn s))(opId := None)) x = Some k'"
      then have xx: "x \<noteq> opId" "map_of (operationToTurn s) x = Some k'"
        by (auto split: if_splits)
      from c3 [OF xx(2)] obtain t' where t': "map_of (turns s) k' = Some t'" "x \<in> set (operations t')"
        by blast
      have "k' \<noteq> k"
      proof
        assume "k' = k"
        with t' t have "x \<in> set (operations t)" by simp
        from all [OF this] xx(1) show False by simp
      qed
      with t' show "\<exists>t. ((map_of (turns s))(k := None)) k' = Some t \<and> x \<in> set (operations t)"
        by auto
    qed
  next
    case False
    let ?t = "t\<lparr>operations := filter (\<lambda>i. i \<noteq> opId) (operations t)\<rparr>"
    have tu: "map_of (turns (removeOperation opId s)) = (map_of (turns s))(k \<mapsto> ?t)"
      using Some k t False by (simp add: removeOperation_turns)
    show ?thesis
      unfolding consistent_iff isMember_iff idx tu
    proof (intro conjI allI impI ballI)
      fix k' t' assume "((map_of (turns s))(k \<mapsto> ?t)) k' = Some t'"
      then show "k' \<noteq> []" using c1 k by (auto split: if_splits)
    next
      fix k' t' x assume a: "((map_of (turns s))(k \<mapsto> ?t)) k' = Some t'" "x \<in> set (operations t')"
      show "((map_of (operationToTurn s))(opId := None)) x = Some k'"
      proof (cases "k' = k")
        case True
        with a have "x \<in> set (operations t)" "x \<noteq> opId" by auto
        with c2 [OF t(1)] True show ?thesis by auto
      next
        case False
        with a have m: "map_of (turns s) k' = Some t'" by auto
        from c2 [OF m a(2)] have "map_of (operationToTurn s) x = Some k'" .
        with Some False show ?thesis by auto
      qed
    next
      fix x k' assume a: "((map_of (operationToTurn s))(opId := None)) x = Some k'"
      then have xx: "x \<noteq> opId" "map_of (operationToTurn s) x = Some k'"
        by (auto split: if_splits)
      from c3 [OF xx(2)] obtain t' where t': "map_of (turns s) k' = Some t'" "x \<in> set (operations t')"
        by blast
      show "\<exists>ta. ((map_of (turns s))(k \<mapsto> ?t)) k' = Some ta \<and> x \<in> set (operations ta)"
        using t' t xx(1) by (cases "k' = k") auto
    qed
  qed
qed

lemma fold_removeOperation_consistent:
  "consistent s \<Longrightarrow> consistent (fold removeOperation ids s)"
  by (induction ids arbitrary: s) (simp_all add: removeOperation_consistent)

lemma consistent_truthy:
  "consistent s \<Longrightarrow> truthy (map_of (operationToTurn s) x) \<longleftrightarrow> map_of (operationToTurn s) x \<noteq> None"
proof -
  assume c: "consistent s"
  have "k \<noteq> []" if "map_of (operationToTurn s) x = Some k" for k
  proof -
    from c that obtain t where "map_of (turns s) k = Some t"
      unfolding consistent_iff isMember_iff by blast
    with c show ?thesis unfolding consistent_iff by blast
  qed
  then show ?thesis by (auto simp: truthy_def split: option.splits)
qed

lemma fold_removeOperation_index:
  "consistent s \<Longrightarrow>
   map_of (operationToTurn (fold removeOperation ids s)) x =
     (if x \<in> set ids then None else map_of (operationToTurn s) x)"
proof (induction ids arbitrary: s)
  case Nil
  then show ?case by simp
next
  case (Cons i ids)
  have c: "consistent (removeOperation i s)" using Cons.prems by (rule removeOperation_consistent)
  show ?case
    using Cons.IH [OF c] consistent_truthy [OF Cons.prems, of i]
    by (auto simp: removeOperation_index)
qed

section \<open>The loop of a batch\<close>

lemma length_outcomes: "length (outcomes undo ops w) = length ops"
  by (induction ops arbitrary: w) (auto split: prod.splits)

lemma success_result_of: "success (result_of r) = succeeded r"
  by (cases r) (simp_all add: result_of_def succeeded_def)

lemma undo_loop_Nil: "undo_loop undo [] st = st"
  by (simp add: undo_loop_def)

lemma undo_loop_Cons:
  "undo_loop undo (operation # rest) st = undo_loop undo rest (undo_body undo operation st)"
  by (simp add: undo_loop_def)

lemma undo_body_outcome:
  fixes undo :: "('d, 'w) undo_delegate"
  shows "undo operation w = (r, w') \<Longrightarrow>
   undo_body undo operation (w, sc, fc, rs) =
     (w', if succeeded r then sc + 1 else sc, if succeeded r then fc else fc + 1,
      rs @ [result_of r])"
  by (cases r) (simp_all add: undo_body_def succeeded_def result_of_def)

lemma undo_loop_results:
  "undo_loop undo ops (w, sc, fc, rs) = (w', sc', fc', rs') \<Longrightarrow>
   rs' = rs @ map result_of (outcomes undo ops w) \<and>
   sc' = sc + length (filter succeeded (outcomes undo ops w))"
proof (induction ops arbitrary: w sc fc rs)
  case Nil
  then show ?case by (simp add: undo_loop_Nil)
next
  case (Cons operation rest)
  obtain r w1 where u: "undo operation w = (r, w1)" by (cases "undo operation w")
  from Cons.prems have
    "undo_loop undo rest
       (w1, if succeeded r then sc + 1 else sc, if succeeded r then fc else fc + 1,
        rs @ [result_of r]) = (w', sc', fc', rs')"
    by (simp add: undo_loop_Cons undo_body_outcome [of undo operation w r w1, OF u])
  from Cons.IH [OF this] u show ?case by simp
qed

lemma logged_apply:
  fixes undo :: "('d, 'w) undo_delegate"
  shows "undo operation w = (r, w') \<Longrightarrow> logged undo operation (w, log) = (r, (w', log @ [operation]))"
  by (simp add: logged_def)

lemma outcomes_logged: "outcomes (logged undo) ops (w, log) = outcomes undo ops w"
proof (induction ops arbitrary: w log)
  case Nil
  show ?case by simp
next
  case (Cons operation rest)
  obtain r w1 where u: "undo operation w = (r, w1)" by (cases "undo operation w")
  show ?case by (simp add: u logged_apply [of undo operation w r w1, OF u] Cons.IH)
qed

lemma undo_loop_logged:
  "undo_loop (logged undo) ops ((w, log), sc, fc, rs) = ((w', log'), sc', fc', rs') \<Longrightarrow>
   log' = log @ ops"
proof (induction ops arbitrary: w log sc fc rs)
  case Nil
  then show ?case by (simp add: undo_loop_Nil)
next
  case (Cons operation rest)
  obtain r w1 where u: "undo operation w = (r, w1)" by (cases "undo operation w")
  from Cons.prems have
    "undo_loop (logged undo) rest
       ((w1, log @ [operation]), if succeeded r then sc + 1 else sc,
        if succeeded r then fc else fc + 1, rs @ [result_of r]) = ((w', log'), sc', fc', rs')"
    by (simp add: undo_loop_Cons
        undo_body_outcome [of "logged undo" operation "(w, log)" r "(w1, log @ [operation])",
          OF logged_apply [of undo operation w r w1, OF u]])
  from Cons.IH [OF this] show ?case by simp
qed

lemma set_successfulOpIds:
  "set (successfulOpIds ops rs) =
     {op_id (ops ! i) | i. i < length ops \<and> i < length rs \<and> success (rs ! i)}"
proof -
  have z: "set (zip ops [0..<length ops]) = {(ops ! i, i) | i. i < length ops}"
    by (auto simp: set_zip)
  show ?thesis
    unfolding successfulOpIds_def by (auto simp: z image_iff)
qed

lemma distinct_turnOperationsOf:
  "distinct (map op_id allOperations) \<Longrightarrow> distinct (map op_id (turnOperationsOf t allOperations))"
proof -
  assume d: "distinct (map op_id allOperations)"
  have "mset (map op_id (turnOperationsOf t allOperations)) =
        mset (map op_id (filter (\<lambda>op. op_id op \<in> set (operations t)) allOperations))"
    by (simp add: turnOperationsOf_def)
  moreover have "distinct (map op_id (filter (\<lambda>op. op_id op \<in> set (operations t)) allOperations))"
    using d by (rule distinct_map_filter)
  ultimately show ?thesis by (metis mset_eq_imp_distinct_iff)
qed

lemma set_turnOperationsOf:
  "set (turnOperationsOf t allOperations) =
     {op \<in> set allOperations. op_id op \<in> set (operations t)}"
  by (simp add: turnOperationsOf_def)

section \<open>Partial failure in a batch\<close>

lemma removeOperationsFromTurns_Inr:
  "removeOperationsFromTurns ids s = Inr s' \<Longrightarrow>
   turns s' = turns (fold removeOperation ids s) \<and>
   operationToTurn s' = operationToTurn (fold removeOperation ids s)"
  by (auto simp: removeOperationsFromTurns_def saveTurns_def split: if_splits)

lemma consistent_cong:
  "turns s' = turns s \<Longrightarrow> operationToTurn s' = operationToTurn s \<Longrightarrow>
   consistent s' = consistent s"
  unfolding consistent_iff isMember_iff by simp

text \<open>What detaching successful operations does to a consistent manager.\<close>

lemma detach_effect:
  assumes cons: "consistent s"
    and s': "turns s' = turns (fold removeOperation ids s)"
            "operationToTurn s' = operationToTurn (fold removeOperation ids s)"
  shows "consistent s'"
    and "getTurnForOperation s' x = (if x \<in> set ids then None else getTurnForOperation s x)"
proof -
  have "consistent (fold removeOperation ids s)"
    using cons by (rule fold_removeOperation_consistent)
  with consistent_cong [OF s'] show "consistent s'" by blast
  show "getTurnForOperation s' x = (if x \<in> set ids then None else getTurnForOperation s x)"
    unfolding getTurnForOperation_def s'(2) using fold_removeOperation_index [OF cons] by simp
qed

lemma batch_effect:
  fixes ops :: "'d operation list"
  assumes cons: "consistent s"
    and t: "map_of (turns s) turnId = Some t"
    and sub: "\<forall>op \<in> set ops. op_id op \<in> set (operations t)"
    and dist: "distinct (map op_id ops)"
    and len: "length outs = length ops"
    and cons': "consistent s'"
    and idx: "\<And>x. getTurnForOperation s' x =
               (if x \<in> {op_id (ops ! j) | j. j < length ops \<and> succeeded (outs ! j)}
                then None else getTurnForOperation s x)"
    and i: "i < length ops"
  shows "if succeeded (outs ! i)
         then getTurnForOperation s' (op_id (ops ! i)) = None \<and>
              (\<forall>k. \<not> isMember s' (op_id (ops ! i)) k)
         else getTurnForOperation s' (op_id (ops ! i)) = Some turnId \<and>
              isMember s' (op_id (ops ! i)) turnId"
proof (cases "succeeded (outs ! i)")
  case True
  with i have none: "getTurnForOperation s' (op_id (ops ! i)) = None"
    unfolding idx by auto
  have "\<not> isMember s' (op_id (ops ! i)) k" for k
  proof
    assume "isMember s' (op_id (ops ! i)) k"
    with cons' have "map_of (operationToTurn s') (op_id (ops ! i)) = Some k"
      unfolding consistent_iff isMember_iff by blast
    with none show False by (simp add: getTurnForOperation_def)
  qed
  with none True show ?thesis by simp
next
  case False
  have notin: "op_id (ops ! i) \<notin> {op_id (ops ! j) | j. j < length ops \<and> succeeded (outs ! j)}"
  proof
    assume "op_id (ops ! i) \<in> {op_id (ops ! j) | j. j < length ops \<and> succeeded (outs ! j)}"
    then obtain j where j: "j < length ops" "succeeded (outs ! j)" "op_id (ops ! i) = op_id (ops ! j)"
      by blast
    have "i = j"
      using nth_eq_iff_index_eq [OF dist, of i j] i j(1) j(3) by simp
    with j(2) False show False by simp
  qed
  from i sub have "op_id (ops ! i) \<in> set (operations t)" by simp
  with cons t have "map_of (operationToTurn s) (op_id (ops ! i)) = Some turnId"
    unfolding consistent_iff by blast
  with notin have some: "getTurnForOperation s' (op_id (ops ! i)) = Some turnId"
    unfolding idx by (simp add: getTurnForOperation_def)
  with cons' have "isMember s' (op_id (ops ! i)) turnId"
    unfolding consistent_iff getTurnForOperation_def by blast
  with some False show ?thesis by simp
qed

lemma set_successfulOpIds_outcomes:
  "length outs = length ops \<Longrightarrow>
   set (successfulOpIds ops (map result_of outs)) =
     {op_id (ops ! j) | j. j < length ops \<and> succeeded (outs ! j)}"
  by (auto simp: set_successfulOpIds success_result_of)

text \<open>
  The batch of \<open>undoTurn\<close> on a turn of a consistent manager, with operations of distinct
  ids. The delegate is called on every operation of the batch, in the resolved order,
  whatever the earlier calls returned or threw (the log of the calls is the whole batch).
  After the batch an operation whose undo succeeded is mapped to no turn and is a member of
  none; an operation whose undo failed (\<open>success: false\<close> returned, or an error thrown) is
  still mapped to the turn and still a member of it; and an id that is not in the batch is
  mapped and is a member as before.
\<close>

lemma undoTurn_batch_consistent:
  fixes undo :: "('d, 'w) undo_delegate"
  assumes turn: "getTurn s turnId = Some t"
    and cons: "consistent s"
    and dist: "distinct (map op_id allOperations)"
    and run: "undoTurn (logged undo) turnId allOperations ((w, []), s) = Inr (res, (w', log), s')"
  shows "log = turnOperationsOf t allOperations \<and>
    (\<forall>i < length (turnOperationsOf t allOperations).
       if succeeded (outcomes undo (turnOperationsOf t allOperations) w ! i)
       then getTurnForOperation s' (op_id (turnOperationsOf t allOperations ! i)) = None \<and>
            (\<forall>k. \<not> isMember s' (op_id (turnOperationsOf t allOperations ! i)) k)
       else getTurnForOperation s' (op_id (turnOperationsOf t allOperations ! i)) = Some turnId \<and>
            isMember s' (op_id (turnOperationsOf t allOperations ! i)) turnId) \<and>
    (\<forall>x k. x \<notin> op_id ` set (turnOperationsOf t allOperations) \<longrightarrow>
       getTurnForOperation s' x = getTurnForOperation s x \<and>
       isMember s' x k = isMember s x k)"
proof -
  define ops where "ops = turnOperationsOf t allOperations"
  define outs where "outs = outcomes undo ops w"
  define S where "S = {op_id (ops ! j) | j. j < length ops \<and> succeeded (outs ! j)}"
  have len: "length outs = length ops" by (simp add: outs_def length_outcomes)
  have t: "map_of (turns s) turnId = Some t" using turn by (simp add: getTurn_def)
  have sub: "\<forall>op \<in> set ops. op_id op \<in> set (operations t)"
    by (simp add: ops_def set_turnOperationsOf)
  have d: "distinct (map op_id ops)"
    unfolding ops_def using dist by (rule distinct_turnOperationsOf)
  have main: "log = ops \<and> consistent s' \<and>
              (\<forall>x. getTurnForOperation s' x = (if x \<in> S then None else getTurnForOperation s x))"
  proof (cases "ops = []")
    case True
    with run turn have "log = []" "s' = s"
      by (simp_all add: undoTurn_def ops_def [symmetric])
    moreover have "S = {}" using True by (simp add: S_def)
    ultimately show ?thesis using True cons by simp
  next
    case False
    obtain w1 l1 sc fc rs where
      loop: "undo_loop (logged undo) ops ((w, []), 0, 0, []) = ((w1, l1), sc, fc, rs)"
      by (metis prod.exhaust)
    from undo_loop_logged [OF loop] have l1: "l1 = ops" by simp
    from undo_loop_results [OF loop] have
      rs: "rs = map result_of outs" and sc: "sc = length (filter succeeded outs)"
      by (simp_all add: outs_def outcomes_logged)
    have ids: "set (successfulOpIds ops rs) = S"
      unfolding rs S_def using len by (rule set_successfulOpIds_outcomes)
    show ?thesis
    proof (cases "sc > 0")
      case True
      with run turn False loop obtain s1 where
        r: "removeOperationsFromTurns (successfulOpIds ops rs) s = Inr s1" and
        e: "log = l1" "s' = s1"
        by (auto simp: undoTurn_def ops_def [symmetric] Let_def split: sum.splits)
      from removeOperationsFromTurns_Inr [OF r] e have
        s': "turns s' = turns (fold removeOperation (successfulOpIds ops rs) s)"
            "operationToTurn s' = operationToTurn (fold removeOperation (successfulOpIds ops rs) s)"
        by simp_all
      from detach_effect [OF cons s'] e l1 ids show ?thesis by simp
    next
      case no: False
      with run turn False loop have e: "log = l1" "s' = s"
        by (auto simp: undoTurn_def ops_def [symmetric] Let_def)
      from no sc have "filter succeeded outs = []" by simp
      then have "\<forall>r \<in> set outs. \<not> succeeded r" by (simp add: filter_empty_conv)
      then have "S = {}" unfolding S_def using len by auto
      with e l1 cons show ?thesis by simp
    qed
  qed
  then have log: "log = ops" and cons': "consistent s'"
    and idx: "\<And>x. getTurnForOperation s' x = (if x \<in> S then None else getTurnForOperation s x)"
    by blast+
  have "\<forall>i < length ops.
       if succeeded (outs ! i)
       then getTurnForOperation s' (op_id (ops ! i)) = None \<and>
            (\<forall>k. \<not> isMember s' (op_id (ops ! i)) k)
       else getTurnForOperation s' (op_id (ops ! i)) = Some turnId \<and>
            isMember s' (op_id (ops ! i)) turnId"
    using batch_effect [OF cons t sub d len cons' idx [unfolded S_def]] by blast
  moreover have "\<forall>x k. x \<notin> op_id ` set ops \<longrightarrow>
       getTurnForOperation s' x = getTurnForOperation s x \<and>
       isMember s' x k = isMember s x k"
  proof (intro allI impI)
    fix x k assume x: "x \<notin> op_id ` set ops"
    have "x \<notin> S"
    proof
      assume "x \<in> S"
      then obtain j where "j < length ops" "x = op_id (ops ! j)" unfolding S_def by blast
      then have "x \<in> op_id ` set ops" by (metis imageI nth_mem)
      with x show False by simp
    qed
    with idx have same: "getTurnForOperation s' x = getTurnForOperation s x" by simp
    have "isMember s' x k \<longleftrightarrow> getTurnForOperation s' x = Some k"
      using cons' unfolding consistent_iff isMember_iff getTurnForOperation_def by blast
    moreover have "isMember s x k \<longleftrightarrow> getTurnForOperation s x = Some k"
      using cons unfolding consistent_iff isMember_iff getTurnForOperation_def by blast
    ultimately show "getTurnForOperation s' x = getTurnForOperation s x \<and>
       isMember s' x k = isMember s x k"
      using same by simp
  qed
  ultimately show ?thesis using log unfolding ops_def outs_def by blast
qed

section \<open>The batch on the example\<close>

lemma tracked_turns: "turns tracked = [(''turn-'', first_turn), (''turn-i'', second_turn)]"
  and tracked_index: "operationToTurn tracked = [(''x'', ''turn-''), (''y'', ''turn-''), (''z'', ''turn-i'')]"
  and tracked_writable: "writable tracked"
  by (simp_all add: tracked_def two_turns_def fresh_manager_def first_turn_def second_turn_def
      eval_defs Let_def)

lemma tracked_consistent: "consistent tracked"
  by (simp add: consistent_def isMember_def tracked_turns tracked_index first_turn_def
      second_turn_def)

lemma first_turn_operations:
  "turnOperationsOf first_turn three_ops = [mk_op ''y'' 20 FILE_CREATE, mk_op ''x'' 10 FILE_EDIT]"
  by (simp add: turnOperationsOf_def first_turn_def three_ops_def mk_op_def)

lemma flaky_outcomes:
  "outcomes flaky [mk_op ''y'' 20 FILE_CREATE, mk_op ''x'' 10 FILE_EDIT] 0 =
     [Thrown ''EACCES'',
      Returned \<lparr> success = True, message = ''File edit reverted'', backupPath = None \<rparr>]"
  by (simp add: flaky_def mk_op_def)

lemma removeOperation_writable: "writable (removeOperation opId s) = writable s"
  by (simp add: removeOperation_def Let_def split: option.splits)

lemma fold_removeOperation_writable: "writable (fold removeOperation ids s) = writable s"
  by (induction ids arbitrary: s) (simp_all add: removeOperation_writable)

lemma undoTurn_tracked_returns:
  "\<not> isl (undoTurn (logged flaky) ''turn-'' three_ops ((0, []), tracked))"
  by (simp add: undoTurn_def getTurn_def tracked_turns first_turn_operations Let_def
      removeOperationsFromTurns_def saveTurns_def tracked_writable
      fold_removeOperation_writable split: prod.splits sum.splits)

text \<open>
  On the example the delegate throws on \<open>y\<close>, the first operation of the batch; \<open>x\<close> is
  attempted all the same and detached, \<open>y\<close> stays in its turn.
\<close>

lemma undoTurn_batch_consistent_example:
  "getTurn tracked ''turn-'' = Some first_turn \<and> consistent tracked \<and>
   distinct (map op_id three_ops) \<and>
   snd (fst (snd (projr (undoTurn (logged flaky) ''turn-'' three_ops ((0, []), tracked))))) =
     [mk_op ''y'' 20 FILE_CREATE, mk_op ''x'' 10 FILE_EDIT] \<and>
   getTurnForOperation
     (snd (snd (projr (undoTurn (logged flaky) ''turn-'' three_ops ((0, []), tracked))))) ''y''
     = Some ''turn-'' \<and>
   getTurnForOperation
     (snd (snd (projr (undoTurn (logged flaky) ''turn-'' three_ops ((0, []), tracked))))) ''x''
     = None"
proof -
  have h1: "getTurn tracked ''turn-'' = Some first_turn"
    by (simp add: getTurn_def tracked_turns)
  have h3: "distinct (map op_id three_ops)"
    by (simp add: three_ops_def mk_op_def)
  obtain res w' log s' where
    run: "undoTurn (logged flaky) ''turn-'' three_ops ((0, []), tracked) = Inr (res, (w', log), s')"
    using undoTurn_tracked_returns
    by (cases "undoTurn (logged flaky) ''turn-'' three_ops ((0, []), tracked)") auto
  note r = undoTurn_batch_consistent [OF h1 tracked_consistent h3 run,
      unfolded first_turn_operations flaky_outcomes]
  from r have log: "log = [mk_op ''y'' 20 FILE_CREATE, mk_op ''x'' 10 FILE_EDIT]"
    by (rule conjunct1)
  have y: "getTurnForOperation s' ''y'' = Some ''turn-''"
    using r [THEN conjunct2, THEN conjunct1, rule_format, of 0]
    by (simp add: succeeded_def mk_op_def)
  have x: "getTurnForOperation s' ''x'' = None"
    using r [THEN conjunct2, THEN conjunct1, rule_format, of 1]
    by (simp add: succeeded_def mk_op_def)
  from h1 tracked_consistent h3 log x y show ?thesis by (simp add: run)
qed

section \<open>Cascading undo\<close>

lemma descending_sort_key: "descending (sort_key (\<lambda>op. - op_timestamp op) ops)"
proof -
  have "sorted (map (\<lambda>op. - op_timestamp op) (sort_key (\<lambda>op. - op_timestamp op) ops))"
    by (rule sorted_sort_key)
  then show ?thesis by (simp add: descending_def sorted_map)
qed

lemma resolveCascade_Some:
  assumes "getTurn s turnId = Some T"
  obtains cascade ops where
    "resolveCascade s turnId allOperations = Some (cascade, ops)"
    "set cascade = {u \<in> snd ` set (turns s). startTime T \<le> startTime u}"
    "mset ops =
       mset (filter (\<lambda>op. \<exists>u \<in> snd ` set (turns s).
                             startTime T \<le> startTime u \<and> op_id op \<in> set (operations u))
               allOperations)"
    "descending ops"
proof -
  let ?cascade = "sort_key (\<lambda>u. - startTime u)
                    (filter (\<lambda>u. startTime u \<ge> startTime T) (map snd (turns s)))"
  let ?ops = "sort_key (\<lambda>op. - op_timestamp op)
                (filter (\<lambda>op. \<exists>u \<in> set ?cascade. op_id op \<in> set (operations u)) allOperations)"
  have r: "resolveCascade s turnId allOperations = Some (?cascade, ?ops)"
    using assms by (simp add: resolveCascade_def Let_def)
  have c: "set ?cascade = {u \<in> snd ` set (turns s). startTime T \<le> startTime u}"
    by auto
  have f: "filter (\<lambda>op. \<exists>u \<in> set ?cascade. op_id op \<in> set (operations u)) allOperations =
           filter (\<lambda>op. \<exists>u \<in> snd ` set (turns s).
                          startTime T \<le> startTime u \<and> op_id op \<in> set (operations u))
             allOperations"
    unfolding c by (rule filter_cong) auto
  have m: "mset ?ops =
       mset (filter (\<lambda>op. \<exists>u \<in> snd ` set (turns s).
                             startTime T \<le> startTime u \<and> op_id op \<in> set (operations u))
               allOperations)"
    unfolding f by simp
  show thesis
    by (rule that [OF r c m]) (rule descending_sort_key)
qed

text \<open>
  C1. Undoing a turn \<open>T\<close> of the store with cascading resolves the cascade to exactly the
  turns of the store whose \<open>startTime\<close> is at least that of \<open>T\<close> (each of them included, each
  turn that started earlier excluded), calls the delegate on exactly the given operations
  that are members of these turns, each once, and does so by timestamp descending.
\<close>

theorem undoTurnWithCascading_cascade:
  fixes undo :: "('d, 'w) undo_delegate"
  assumes turn: "getTurn s turnId = Some T"
    and run: "undoTurnWithCascading (logged undo) turnId allOperations ((w, []), s) =
                Inr (res, (w', log), s')"
  shows "(\<exists>cascade. resolveCascade s turnId allOperations = Some (cascade, log) \<and>
            set cascade = {u \<in> snd ` set (turns s). startTime T \<le> startTime u}) \<and>
         mset log =
           mset (filter (\<lambda>op. \<exists>u \<in> snd ` set (turns s).
                                 startTime T \<le> startTime u \<and> op_id op \<in> set (operations u))
                   allOperations) \<and>
         descending log"
proof -
  from turn obtain cascade ops where
    r: "resolveCascade s turnId allOperations = Some (cascade, ops)" and
    c: "set cascade = {u \<in> snd ` set (turns s). startTime T \<le> startTime u}" and
    m: "mset ops =
       mset (filter (\<lambda>op. \<exists>u \<in> snd ` set (turns s).
                             startTime T \<le> startTime u \<and> op_id op \<in> set (operations u))
               allOperations)" and
    d: "descending ops"
    by (rule resolveCascade_Some)
  have "log = ops"
  proof (cases "ops = []")
    case True
    with run r show ?thesis by (simp add: undoTurnWithCascading_def)
  next
    case False
    obtain w1 l1 sc fc rs where
      loop: "undo_loop (logged undo) ops ((w, []), 0, 0, []) = ((w1, l1), sc, fc, rs)"
      by (metis prod.exhaust)
    from undo_loop_logged [OF loop] have l1: "l1 = ops" by simp
    from run r False loop have "log = l1"
      by (auto simp: undoTurnWithCascading_def Let_def split: sum.splits if_splits)
    with l1 show ?thesis by simp
  qed
  with r c m d show ?thesis by blast
qed

lemma cascade_tracked_returns:
  "\<not> isl (undoTurnWithCascading (logged flaky) ''turn-i'' three_ops ((0, []), tracked))"
  by (simp add: undoTurnWithCascading_def resolveCascade_def getTurn_def tracked_turns
      first_turn_def second_turn_def three_ops_def mk_op_def Let_def
      removeOperationsFromTurns_def saveTurns_def tracked_writable
      fold_removeOperation_writable split: prod.splits sum.splits)

lemma cascade_first_returns:
  "\<not> isl (undoTurnWithCascading (logged flaky) ''turn-'' three_ops ((0, []), tracked))"
  by (simp add: undoTurnWithCascading_def resolveCascade_def getTurn_def tracked_turns
      first_turn_def second_turn_def three_ops_def mk_op_def Let_def
      removeOperationsFromTurns_def saveTurns_def tracked_writable
      fold_removeOperation_writable split: prod.splits sum.splits)

text \<open>A batch is determined by its operations and the descending order, when the
  timestamps differ.\<close>

lemma descending_unique:
  assumes m: "mset log = mset ops"
    and d: "descending log" "descending ops"
    and i: "distinct (map op_timestamp ops)"
  shows "log = ops"
proof (rule map_sorted_distinct_set_unique [where f = "\<lambda>op. - op_timestamp op"])
  from m have s: "set log = set ops" by (rule mset_eq_setD)
  then show "set log = set ops" .
  from i have inj: "inj_on op_timestamp (set ops)" by (simp add: distinct_map)
  then show "inj_on (\<lambda>op. - op_timestamp op) (set log \<union> set ops)"
    unfolding s by (auto simp: inj_on_def)
  from d show "sorted (map (\<lambda>op. - op_timestamp op) log)"
    and "sorted (map (\<lambda>op. - op_timestamp op) ops)"
    by (simp_all add: descending_def sorted_map)
  have io: "distinct (map (\<lambda>op. - op_timestamp op) ops)"
    using i by (auto simp: distinct_map inj_on_def)
  then show "distinct (map (\<lambda>op. - op_timestamp op) ops)" .
  from m have "mset (map (\<lambda>op. - op_timestamp op) log) = mset (map (\<lambda>op. - op_timestamp op) ops)"
    by (metis mset_map)
  from mset_eq_imp_distinct_iff [OF this] io
  show "distinct (map (\<lambda>op. - op_timestamp op) log)" by simp
qed

text \<open>
  C1 on the example. Undoing the earlier turn \<open>turn-\<close> with cascading takes in the later turn
  \<open>turn-i\<close> as well: the delegate is called on \<open>z\<close>, \<open>y\<close>, \<open>x\<close>, latest first, and goes on
  after it has thrown on \<open>y\<close>. Undoing the later turn \<open>turn-i\<close> leaves the operations of the
  earlier turn alone.
\<close>

theorem undoTurnWithCascading_cascade_witness:
  "getTurn tracked ''turn-'' = Some first_turn \<and>
   snd (fst (snd (projr
     (undoTurnWithCascading (logged flaky) ''turn-'' three_ops ((0, []), tracked))))) =
     [mk_op ''z'' 30 BASH_COMMAND, mk_op ''y'' 20 FILE_CREATE, mk_op ''x'' 10 FILE_EDIT] \<and>
   getTurn tracked ''turn-i'' = Some second_turn \<and>
   snd (fst (snd (projr
     (undoTurnWithCascading (logged flaky) ''turn-i'' three_ops ((0, []), tracked))))) =
     [mk_op ''z'' 30 BASH_COMMAND]"
proof -
  have h1: "getTurn tracked ''turn-'' = Some first_turn"
    by (simp add: getTurn_def tracked_turns)
  obtain res w' log s' where
    run: "undoTurnWithCascading (logged flaky) ''turn-'' three_ops ((0, []), tracked) =
            Inr (res, (w', log), s')"
    using cascade_first_returns
    by (cases "undoTurnWithCascading (logged flaky) ''turn-'' three_ops ((0, []), tracked)") auto
  note c = undoTurnWithCascading_cascade [OF h1 run]
  have m: "mset log =
     mset [mk_op ''z'' 30 BASH_COMMAND, mk_op ''y'' 20 FILE_CREATE, mk_op ''x'' 10 FILE_EDIT]"
    using c [THEN conjunct2, THEN conjunct1]
    by (simp add: tracked_turns first_turn_def second_turn_def three_ops_def mk_op_def)
  have d: "descending log" using c by blast
  have "log = [mk_op ''z'' 30 BASH_COMMAND, mk_op ''y'' 20 FILE_CREATE, mk_op ''x'' 10 FILE_EDIT]"
    using m d by (rule descending_unique) (simp_all add: descending_def mk_op_def)
  then have first: "snd (fst (snd (projr
     (undoTurnWithCascading (logged flaky) ''turn-'' three_ops ((0, []), tracked))))) =
     [mk_op ''z'' 30 BASH_COMMAND, mk_op ''y'' 20 FILE_CREATE, mk_op ''x'' 10 FILE_EDIT]"
    by (simp add: run)
  have h2: "getTurn tracked ''turn-i'' = Some second_turn"
    by (simp add: getTurn_def tracked_turns)
  obtain res2 w2 log2 s2 where
    run2: "undoTurnWithCascading (logged flaky) ''turn-i'' three_ops ((0, []), tracked) =
            Inr (res2, (w2, log2), s2)"
    using cascade_tracked_returns
    by (cases "undoTurnWithCascading (logged flaky) ''turn-i'' three_ops ((0, []), tracked)") auto
  have "mset log2 = {#mk_op ''z'' 30 BASH_COMMAND#}"
    using undoTurnWithCascading_cascade [OF h2 run2, THEN conjunct2, THEN conjunct1]
    by (simp add: tracked_turns first_turn_def second_turn_def three_ops_def mk_op_def)
  then have "log2 = [mk_op ''z'' 30 BASH_COMMAND]" by simp
  with h1 h2 first show ?thesis by (simp add: run2)
qed

section \<open>Persistence\<close>

lemma saveTurns_persisted: "saveTurns s = Inr s' \<Longrightarrow> persisted s'"
  by (auto simp: saveTurns_def persisted_def split: if_splits)

lemma group_Inr_cases:
  assumes "groupOperationsIntoTurns ops G s = Inr (created, s')"
  shows "(created = [] \<and> s' = s \<and>
            (\<forall>op \<in> set ops. truthy (getTurnForOperation s (op_id op)))) \<or>
         ((\<exists>op \<in> set ops. \<not> truthy (getTurnForOperation s (op_id op))) \<and>
            (\<exists>s3. saveTurns s3 = Inr s'))"
proof (cases "filter (\<lambda>op. \<not> truthy (getTurnForOperation s (op_id op))) ops = []")
  case True
  then have "\<forall>op \<in> set ops. truthy (getTurnForOperation s (op_id op))"
    by (simp add: filter_empty_conv)
  moreover from assms True have "created = [] \<and> s' = s"
    by (simp add: groupOperationsIntoTurns_def split: if_splits)
  ultimately show ?thesis by blast
next
  case False
  then have ex: "\<exists>op \<in> set ops. \<not> truthy (getTurnForOperation s (op_id op))"
    by (simp add: filter_empty_conv)
  then have ne: "ops \<noteq> []" by auto
  from assms False ne have "\<exists>s3. saveTurns s3 = Inr s'"
    by (simp add: groupOperationsIntoTurns_def Let_def split: prod.splits sum.splits) blast
  with ex show ?thesis by blast
qed

text \<open>
  C3 (amended). \<open>completeTurn\<close> for a turn of the store, \<open>removeOperationsFromTurns\<close>, and
  \<open>groupOperationsIntoTurns\<close> when at least one given operation is ungrouped write the
  full turn state before they return: after a successful return the persisted document is
  the serialisation of the turns in memory. In their other cases (\<open>completeTurn\<close> for an
  unknown turn, grouping with nothing ungrouped) they change nothing. \<open>createTurn\<close> and
  \<open>addOperationToTurn\<close> change the manager in memory and leave the document as it is; it
  is written when the caller saves.
\<close>

theorem mutations_persist:
  "(getTurn s turnId \<noteq> None \<and> completeTurn turnId s = Inr s' \<longrightarrow> persisted s') \<and>
   (getTurn s turnId = None \<and> completeTurn turnId s = Inr s' \<longrightarrow> s' = s) \<and>
   (removeOperationsFromTurns ids s = Inr s'' \<longrightarrow> persisted s'') \<and>
   ((\<exists>op \<in> set ops. \<not> truthy (getTurnForOperation s (op_id op))) \<and>
      groupOperationsIntoTurns ops G s = Inr (created, s''') \<longrightarrow> persisted s''') \<and>
   ((\<forall>op \<in> set ops. truthy (getTurnForOperation s (op_id op))) \<and>
      groupOperationsIntoTurns ops G s = Inr (created, s''') \<longrightarrow> created = [] \<and> s''' = s) \<and>
   turnsFile (snd (createTurn desc s)) = turnsFile s \<and>
   turnsFile (addOperationToTurn opId turnId s) = turnsFile s"
proof (intro conjI impI)
  assume "getTurn s turnId \<noteq> None \<and> completeTurn turnId s = Inr s'"
  then have "saveTurns (completeRef turnId s) = Inr s'"
    by (auto simp: completeTurn_def getTurn_def)
  then show "persisted s'" by (rule saveTurns_persisted)
next
  assume "getTurn s turnId = None \<and> completeTurn turnId s = Inr s'"
  then show "s' = s" by (auto simp: completeTurn_def getTurn_def)
next
  assume "removeOperationsFromTurns ids s = Inr s''"
  then show "persisted s''"
    unfolding removeOperationsFromTurns_def by (rule saveTurns_persisted)
next
  assume a: "(\<exists>op \<in> set ops. \<not> truthy (getTurnForOperation s (op_id op))) \<and>
      groupOperationsIntoTurns ops G s = Inr (created, s''')"
  with group_Inr_cases [of ops G s created s'''] obtain sv where "saveTurns sv = Inr s'''"
    by blast
  then show "persisted s'''" by (rule saveTurns_persisted)
next
  assume a: "(\<forall>op \<in> set ops. truthy (getTurnForOperation s (op_id op))) \<and>
      groupOperationsIntoTurns ops G s = Inr (created, s''')"
  with group_Inr_cases [of ops G s created s'''] show "created = []" by blast
  from a group_Inr_cases [of ops G s created s'''] show "s''' = s" by blast
next
  show "turnsFile (snd (createTurn desc s)) = turnsFile s"
    by (simp add: createTurn_def newTurn_def randomUUID_def newDate_def Let_def)
next
  show "turnsFile (addOperationToTurn opId turnId s) = turnsFile s"
    by (simp add: addOperationToTurn_def split: option.splits)
qed

text \<open>
  C3 as stated fails: \<open>createTurn\<close> and \<open>addOperationToTurn\<close> do not write. After
  \<open>createTurn\<close> on a manager without a document there is a turn in memory and still no
  document; after \<open>addOperationToTurn\<close> the document does not list the added operation.
\<close>

theorem createTurn_not_persisted_counterexample:
  "turnsFile (snd (createTurn [] fresh_manager)) = None \<and>
   length (turns (snd (createTurn [] fresh_manager))) = 1 \<and>
   \<not> persisted (snd (createTurn [] fresh_manager)) \<and>
   \<not> persisted (addOperationToTurn ''y'' ''turn-'' two_turns)"
  by (simp add: persisted_def two_turns_def fresh_manager_def eval_defs Let_def)

lemma example_runs:
  "\<not> isl (completeTurn ''turn-'' tracked)"
  "\<not> isl (removeOperationsFromTurns [''x''] tracked)"
  "\<not> isl (groupOperationsIntoTurns four_ops 300000 fresh_manager)"
proof -
  show "\<not> isl (completeTurn ''turn-'' tracked)"
    by (simp add: completeTurn_def tracked_turns saveTurns_def completeRef_def newDate_def
        tracked_writable Let_def)
  show "\<not> isl (removeOperationsFromTurns [''x''] tracked)"
    by (simp add: removeOperationsFromTurns_def saveTurns_def removeOperation_writable
        tracked_writable)
  show "\<not> isl (groupOperationsIntoTurns four_ops 300000 fresh_manager)"
    by (simp add: groupOperationsIntoTurns_def four_ops_def mk_op_def fresh_manager_def
        eval_defs Let_def)
qed

text \<open>
  C3 (amended) on the examples: completing a turn, detaching an operation and grouping the
  four operations each leave the document equal to the state in memory.
\<close>

theorem mutations_persist_witness:
  "persisted (projr (completeTurn ''turn-'' tracked)) \<and>
   persisted (projr (removeOperationsFromTurns [''x''] tracked)) \<and>
   persisted (snd (projr (groupOperationsIntoTurns four_ops 300000 fresh_manager)))"
proof -
  obtain s1 where r1: "completeTurn ''turn-'' tracked = Inr s1"
    using example_runs(1) by (cases "completeTurn ''turn-'' tracked") auto
  obtain s2 where r2: "removeOperationsFromTurns [''x''] tracked = Inr s2"
    using example_runs(2) by (cases "removeOperationsFromTurns [''x''] tracked") auto
  obtain created s3 where
    r3: "groupOperationsIntoTurns four_ops 300000 fresh_manager = Inr (created, s3)"
    using example_runs(3)
    by (cases "groupOperationsIntoTurns four_ops 300000 fresh_manager") auto
  have h1: "getTurn tracked ''turn-'' \<noteq> None"
    by (simp add: getTurn_def tracked_turns)
  have h3: "\<exists>op \<in> set four_ops. \<not> truthy (getTurnForOperation fresh_manager (op_id op))"
    by (rule bexI [of _ "mk_op ''a'' 0 FILE_CREATE"])
       (simp_all add: four_ops_def mk_op_def fresh_manager_def truthy_def
          getTurnForOperation_def)
  have p1: "persisted s1"
    using mutations_persist [where s = tracked and turnId = "''turn-''" and s' = s1,
        THEN conjunct1] h1 r1
    by simp
  have p2: "persisted s2"
    using mutations_persist [where s = tracked and ids = "[''x'']" and s'' = s2,
        THEN conjunct2, THEN conjunct2, THEN conjunct1] r2
    by simp
  have p3: "persisted s3"
    using mutations_persist [where s = fresh_manager and ops = four_ops and G = 300000
          and created = created and s''' = s3,
        THEN conjunct2, THEN conjunct2, THEN conjunct2, THEN conjunct1] h3 r3
    by simp
  from p1 p2 p3 show ?thesis by (simp add: r1 r2 r3)
qed

section \<open>The steps of grouping\<close>

lemma createTurn_eq:
  "createTurn desc s =
     (uuids s (uuidCalls s),
      s\<lparr>turns :=
          AList.update (uuids s (uuidCalls s))
            \<lparr> turn_id = uuids s (uuidCalls s), turn_timestamp = clock s (clockReads s),
              description = desc, operations = [],
              startTime = clock s (Suc (clockReads s)), endTime = None, completed = False \<rparr>
            (turns s),
        uuidCalls := Suc (uuidCalls s),
        clockReads := Suc (Suc (clockReads s))\<rparr>)"
  by (simp add: createTurn_def newTurn_def randomUUID_def newDate_def Let_def)

lemma completeRef_eq:
  "completeRef c s =
     s\<lparr>turns := AList.map_entry c (complete (clock s (clockReads s))) (turns s),
       clockReads := Suc (clockReads s)\<rparr>"
  by (simp add: completeRef_def newDate_def Let_def)

text \<open>The state in which a new turn is created: the previous turn, if any, is completed.\<close>

lemma group_body_new:
  assumes "needNewTurn cur lst (op_timestamp operation) G"
  shows "group_body G operation (s, created, cur, lst) =
     (addOperationToTurn (op_id operation)
        (fst (createTurn [] (case cur of Some c \<Rightarrow> completeRef c s | None \<Rightarrow> s)))
        (snd (createTurn [] (case cur of Some c \<Rightarrow> completeRef c s | None \<Rightarrow> s))),
      created @ [fst (createTurn [] (case cur of Some c \<Rightarrow> completeRef c s | None \<Rightarrow> s))],
      Some (fst (createTurn [] (case cur of Some c \<Rightarrow> completeRef c s | None \<Rightarrow> s))),
      Some (op_timestamp operation))"
  using assms by (simp add: group_body_def Let_def split: prod.splits)

lemma group_body_same:
  assumes "\<not> needNewTurn (Some c) lst (op_timestamp operation) G"
  shows "group_body G operation (s, created, Some c, lst) =
     (addOperationToTurn (op_id operation) c s, created, Some c, Some (op_timestamp operation))"
  using assms by (simp add: group_body_def Let_def)

lemma needNewTurn_None: "needNewTurn None lst t G"
  by (simp add: needNewTurn_def)

lemma group_loop_Nil: "group_loop G [] st = st"
  by (simp add: group_loop_def)

lemma group_loop_Cons:
  "group_loop G (operation # rest) st = group_loop G rest (group_body G operation st)"
  by (simp add: group_loop_def)

lemma group_loop_append:
  "group_loop G (xs @ ys) st = group_loop G ys (group_loop G xs st)"
  by (simp add: group_loop_def)

subsection \<open>What the steps leave alone\<close>

lemma completeRef_frame:
  "operationToTurn (completeRef c s) = operationToTurn s"
  "uuids (completeRef c s) = uuids s"
  "uuidCalls (completeRef c s) = uuidCalls s"
  "writable (completeRef c s) = writable s"
  "fst ` set (turns (completeRef c s)) = fst ` set (turns s)"
  by (simp_all add: completeRef_eq dom_map_entry)

lemma createTurn_frame:
  "fst (createTurn desc s) = uuids s (uuidCalls s)"
  "operationToTurn (snd (createTurn desc s)) = operationToTurn s"
  "uuids (snd (createTurn desc s)) = uuids s"
  "uuidCalls (snd (createTurn desc s)) = Suc (uuidCalls s)"
  "writable (snd (createTurn desc s)) = writable s"
  "fst ` set (turns (snd (createTurn desc s))) = insert (uuids s (uuidCalls s)) (fst ` set (turns s))"
  by (simp_all add: createTurn_eq dom_update)

lemma addOperationToTurn_frame:
  "uuids (addOperationToTurn opId k s) = uuids s"
  "uuidCalls (addOperationToTurn opId k s) = uuidCalls s"
  "writable (addOperationToTurn opId k s) = writable s"
  "fst ` set (turns (addOperationToTurn opId k s)) = fst ` set (turns s)"
  by (auto simp: addOperationToTurn_def dom_update split: option.splits
      dest: map_of_SomeD intro: rev_image_eqI)

lemma addOperationToTurn_index:
  "map_of (turns s) k \<noteq> None \<Longrightarrow>
   map_of (operationToTurn (addOperationToTurn opId k s)) = (map_of (operationToTurn s))(opId \<mapsto> k)"
  by (auto simp: addOperationToTurn_def update_conv')

lemma addOperationToTurn_index_other:
  "x \<noteq> opId \<Longrightarrow>
   map_of (operationToTurn (addOperationToTurn opId k s)) x = map_of (operationToTurn s) x"
  by (auto simp: addOperationToTurn_def update_conv' split: option.splits)

lemma describeTurn_frame:
  "operationToTurn (describeTurn us k s) = operationToTurn s"
  "uuids (describeTurn us k s) = uuids s"
  "uuidCalls (describeTurn us k s) = uuidCalls s"
  "writable (describeTurn us k s) = writable s"
  "fst ` set (turns (describeTurn us k s)) = fst ` set (turns s)"
  by (simp_all add: describeTurn_def dom_map_entry)

lemma fold_describeTurn_frame:
  "operationToTurn (fold (describeTurn us) ks s) = operationToTurn s"
  "uuids (fold (describeTurn us) ks s) = uuids s"
  "uuidCalls (fold (describeTurn us) ks s) = uuidCalls s"
  "writable (fold (describeTurn us) ks s) = writable s"
  "fst ` set (turns (fold (describeTurn us) ks s)) = fst ` set (turns s)"
  by (induction ks arbitrary: s) (simp_all add: describeTurn_frame)

lemma saveTurns_frame:
  assumes "saveTurns s = Inr s'"
  shows "turns s' = turns s" "operationToTurn s' = operationToTurn s" "uuids s' = uuids s"
    "uuidCalls s' = uuidCalls s" "writable s' = writable s"
  using assms by (auto simp: saveTurns_def split: if_splits)

section \<open>The loop of grouping\<close>

lemma in_store_iff: "k \<in> fst ` set al \<longleftrightarrow> map_of al k \<noteq> None"
  by (simp add: map_of_eq_None_iff)

lemma addOperationToTurn_index_in_store:
  "k \<in> fst ` set (turns s) \<Longrightarrow>
   map_of (operationToTurn (addOperationToTurn opId k s)) = (map_of (operationToTurn s))(opId \<mapsto> k)"
  by (simp add: addOperationToTurn_index in_store_iff)

text \<open>
  The state before the operation is added: either a new turn has just been created, with
  the next id of the supply, or the current turn is kept.
\<close>

lemma group_body_cases:
  assumes ok: "current_in_store (s, cr, cur, lst)"
  obtains (new) s2 where
      "group_body G operation (s, cr, cur, lst) =
         (addOperationToTurn (op_id operation) (uuids s (uuidCalls s)) s2,
          cr @ [uuids s (uuidCalls s)], Some (uuids s (uuidCalls s)),
          Some (op_timestamp operation))"
      "operationToTurn s2 = operationToTurn s" "uuids s2 = uuids s"
      "uuidCalls s2 = Suc (uuidCalls s)" "writable s2 = writable s"
      "fst ` set (turns s2) = insert (uuids s (uuidCalls s)) (fst ` set (turns s))"
      "needNewTurn cur lst (op_timestamp operation) G"
  | (same) c where
      "cur = Some c" "c \<noteq> []" "c \<in> fst ` set (turns s)"
      "\<not> needNewTurn cur lst (op_timestamp operation) G"
      "group_body G operation (s, cr, cur, lst) =
         (addOperationToTurn (op_id operation) c s, cr, Some c, Some (op_timestamp operation))"
proof (cases "needNewTurn cur lst (op_timestamp operation) G")
  case True
  let ?s1 = "case cur of Some c \<Rightarrow> completeRef c s | None \<Rightarrow> s"
  have s1: "operationToTurn ?s1 = operationToTurn s" "uuids ?s1 = uuids s"
    "uuidCalls ?s1 = uuidCalls s" "writable ?s1 = writable s"
    "fst ` set (turns ?s1) = fst ` set (turns s)"
    by (simp_all add: completeRef_frame split: option.splits)
  show ?thesis
    by (rule new [of "snd (createTurn [] ?s1)"])
       (simp_all add: group_body_new [OF True] createTurn_frame s1 True)
next
  case False
  then obtain c where c: "cur = Some c" by (auto simp: needNewTurn_def)
  with ok have "c \<noteq> []" "c \<in> fst ` set (turns s)" by (simp_all add: current_in_store_def)
  with c False show ?thesis
    by (intro same [of c]) (simp_all add: group_body_same)
qed

lemma group_body_step:
  assumes ne: "\<forall>n \<ge> uuidCalls s. uuids s n \<noteq> []"
    and ok: "current_in_store (s, cr, cur, lst)"
    and step: "group_body G operation (s, cr, cur, lst) = (s', cr', cur', lst')"
  shows "\<exists>c. cur' = Some c \<and> c \<noteq> [] \<and> c \<in> fst ` set (turns s') \<and>
             map_of (operationToTurn s') = (map_of (operationToTurn s))(op_id operation \<mapsto> c)"
    and "lst' = Some (op_timestamp operation)"
    and "uuids s' = uuids s"
    and "uuidCalls s \<le> uuidCalls s'"
    and "writable s' = writable s"
    and "cr' = cr @ map (uuids s) [uuidCalls s..<uuidCalls s']"
    and "fst ` set (turns s') = fst ` set (turns s) \<union> uuids s ` {uuidCalls s..<uuidCalls s'}"
proof -
  have "(\<exists>c. cur' = Some c \<and> c \<noteq> [] \<and> c \<in> fst ` set (turns s') \<and>
             map_of (operationToTurn s') = (map_of (operationToTurn s))(op_id operation \<mapsto> c)) \<and>
    lst' = Some (op_timestamp operation) \<and>
    uuids s' = uuids s \<and> uuidCalls s \<le> uuidCalls s' \<and> writable s' = writable s \<and>
    cr' = cr @ map (uuids s) [uuidCalls s..<uuidCalls s'] \<and>
    fst ` set (turns s') = fst ` set (turns s) \<union> uuids s ` {uuidCalls s..<uuidCalls s'}"
    using ok
  proof (cases rule: group_body_cases [where G = G and operation = operation])
  case (new s2)
  let ?n = "uuids s (uuidCalls s)"
  have in2: "?n \<in> fst ` set (turns s2)" using new(6) by simp
  from new(1) step have e: "s' = addOperationToTurn (op_id operation) ?n s2"
    "cur' = Some ?n" "cr' = cr @ [?n]" "lst' = Some (op_timestamp operation)" by simp_all
  have idx: "map_of (operationToTurn (addOperationToTurn (op_id operation) ?n s2)) =
             (map_of (operationToTurn s))(op_id operation \<mapsto> ?n)"
    using addOperationToTurn_index_in_store [OF in2] new(2) by simp
  have "?n \<noteq> []" using ne by simp
  then show ?thesis
    unfolding e idx using in2
    by (simp add: addOperationToTurn_frame new(3,4,5,6))
next
  case (same c)
  from same(5) step have e: "s' = addOperationToTurn (op_id operation) c s" "cur' = Some c"
    "cr' = cr" "lst' = Some (op_timestamp operation)"
    by simp_all
  have idx: "map_of (operationToTurn (addOperationToTurn (op_id operation) c s)) =
             (map_of (operationToTurn s))(op_id operation \<mapsto> c)"
    using addOperationToTurn_index_in_store [OF same(3)] by simp
  show ?thesis
    unfolding e idx using same(2,3)
    by (simp add: addOperationToTurn_frame)
qed
  then show "\<exists>c. cur' = Some c \<and> c \<noteq> [] \<and> c \<in> fst ` set (turns s') \<and>
             map_of (operationToTurn s') = (map_of (operationToTurn s))(op_id operation \<mapsto> c)"
    and "lst' = Some (op_timestamp operation)"
    and "uuids s' = uuids s"
    and "uuidCalls s \<le> uuidCalls s'"
    and "writable s' = writable s"
    and "cr' = cr @ map (uuids s) [uuidCalls s..<uuidCalls s']"
    and "fst ` set (turns s') = fst ` set (turns s) \<union> uuids s ` {uuidCalls s..<uuidCalls s'}"
    by blast+
qed

lemma group_body_current:
  assumes "\<forall>n \<ge> uuidCalls s. uuids s n \<noteq> []"
    and "current_in_store (s, cr, cur, lst)"
    and "group_body G operation (s, cr, cur, lst) = (s', cr', cur', lst')"
  shows "current_in_store (s', cr', cur', lst')"
    and "\<forall>n \<ge> uuidCalls s'. uuids s' n \<noteq> []"
proof -
  from group_body_step(1) [OF assms] obtain c where
    "cur' = Some c" "c \<noteq> []" "c \<in> fst ` set (turns s')" by blast
  then show "current_in_store (s', cr', cur', lst')"
    by (simp add: current_in_store_def)
  from group_body_step(3,4) [OF assms] assms(1)
  show "\<forall>n \<ge> uuidCalls s'. uuids s' n \<noteq> []" by simp
qed

lemma group_loop_inv:
  assumes "\<forall>n \<ge> uuidCalls s. uuids s n \<noteq> []"
    and "current_in_store (s, cr, cur, lst)"
    and "group_loop G xs (s, cr, cur, lst) = (s', cr', cur', lst')"
  shows "current_in_store (s', cr', cur', lst') \<and>
         (\<forall>x. truthy (map_of (operationToTurn s) x) \<longrightarrow> truthy (map_of (operationToTurn s') x)) \<and>
         (\<forall>op \<in> set xs. truthy (map_of (operationToTurn s') (op_id op))) \<and>
         uuids s' = uuids s \<and> uuidCalls s \<le> uuidCalls s' \<and> writable s' = writable s \<and>
         cr' = cr @ map (uuids s) [uuidCalls s..<uuidCalls s'] \<and>
         fst ` set (turns s') = fst ` set (turns s) \<union> uuids s ` {uuidCalls s..<uuidCalls s'}"
  using assms
proof (induction xs arbitrary: s cr cur lst)
  case Nil
  then show ?case by (simp add: group_loop_Nil)
next
  case (Cons operation rest)
  obtain s1 cr1 cur1 lst1 where
    step: "group_body G operation (s, cr, cur, lst) = (s1, cr1, cur1, lst1)"
    by (metis prod.exhaust)
  note b = group_body_step [OF Cons.prems(1,2) step]
  note c = group_body_current [OF Cons.prems(1,2) step]
  from Cons.prems(3) step have
    loop: "group_loop G rest (s1, cr1, cur1, lst1) = (s', cr', cur', lst')"
    by (simp add: group_loop_Cons)
  note ih = Cons.IH [OF c(2) c(1) loop]
  from b(1) obtain k where k: "k \<noteq> []"
    "map_of (operationToTurn s1) = (map_of (operationToTurn s))(op_id operation \<mapsto> k)"
    by blast
  have t1: "truthy (map_of (operationToTurn s1) (op_id operation))"
    and t2: "\<And>x. truthy (map_of (operationToTurn s) x) \<Longrightarrow> truthy (map_of (operationToTurn s1) x)"
    using k by (simp_all add: truthy_def)
  have u: "[uuidCalls s..<uuidCalls s'] = [uuidCalls s..<uuidCalls s1] @ [uuidCalls s1..<uuidCalls s']"
    using b(4) ih upt_add_eq_append [of "uuidCalls s" "uuidCalls s1" "uuidCalls s' - uuidCalls s1"]
    by simp
  have v: "{uuidCalls s..<uuidCalls s'} = {uuidCalls s..<uuidCalls s1} \<union> {uuidCalls s1..<uuidCalls s'}"
    using b(4) ih by auto
  from ih have "current_in_store (s', cr', cur', lst')" by blast
  moreover from ih t2 have
    "\<forall>x. truthy (map_of (operationToTurn s) x) \<longrightarrow> truthy (map_of (operationToTurn s') x)"
    by blast
  moreover from ih t1 have
    "\<forall>op \<in> set (operation # rest). truthy (map_of (operationToTurn s') (op_id op))"
    by simp
  moreover from ih b(3,4,5) have
    "uuids s' = uuids s \<and> uuidCalls s \<le> uuidCalls s' \<and> writable s' = writable s"
    by simp
  moreover from ih b(3,6) have "cr' = cr @ map (uuids s) [uuidCalls s..<uuidCalls s']"
    unfolding u by simp
  moreover from ih b(3,7) have
    "fst ` set (turns s') = fst ` set (turns s) \<union> uuids s ` {uuidCalls s..<uuidCalls s'}"
    unfolding v by (simp add: image_Un Un_assoc)
  ultimately show ?case by blast
qed

lemma group_body_index_other:
  assumes "x \<noteq> op_id operation"
  shows "map_of (operationToTurn (fst (group_body G operation (s, cr, cur, lst)))) x =
         map_of (operationToTurn s) x"
proof (cases "needNewTurn cur lst (op_timestamp operation) G")
  case True
  show ?thesis
    using assms
    by (simp add: group_body_new [OF True] addOperationToTurn_index_other createTurn_frame
        completeRef_frame split: option.splits)
next
  case False
  then obtain c where c: "cur = Some c" by (auto simp: needNewTurn_def)
  with False assms show ?thesis
    by (simp add: group_body_same addOperationToTurn_index_other)
qed

lemma group_loop_index_other:
  "x \<notin> op_id ` set xs \<Longrightarrow>
   map_of (operationToTurn (fst (group_loop G xs st))) x = map_of (operationToTurn (fst st)) x"
proof (induction xs arbitrary: st)
  case Nil
  show ?case by (simp add: group_loop_Nil)
next
  case (Cons operation rest)
  obtain s cr cur lst where st: "st = (s, cr, cur, lst)" by (metis prod.exhaust)
  from Cons.prems have x: "x \<noteq> op_id operation" "x \<notin> op_id ` set rest" by auto
  show ?case
    using Cons.IH [OF x(2), of "group_body G operation st"]
      group_body_index_other [OF x(1), of G s cr cur lst]
    by (simp add: group_loop_Cons st)
qed

section \<open>A run of grouping\<close>

lemma isMember_map_entry:
  assumes "\<And>t. operations (f t) = operations t"
  shows "isMember (s\<lparr>turns := AList.map_entry c f (turns s)\<rparr>) x k = isMember s x k"
  using assms by (simp add: isMember_def map_of_map_entry split: option.splits)

lemma isMember_completeRef: "isMember (completeRef c s) x k = isMember s x k"
proof -
  have "isMember (s\<lparr>turns := AList.map_entry c (complete (clock s (clockReads s))) (turns s)\<rparr>) x k
        = isMember s x k"
    by (rule isMember_map_entry) (simp add: complete_def)
  then show ?thesis by (simp add: completeRef_eq isMember_def)
qed

lemma isMember_describeTurn: "isMember (describeTurn us c s) x k = isMember s x k"
  unfolding describeTurn_def by (rule isMember_map_entry) simp

lemma isMember_fold_describeTurn: "isMember (fold (describeTurn us) cs s) x k = isMember s x k"
  by (induction cs arbitrary: s) (simp_all add: isMember_describeTurn)

lemma isMember_saveTurns: "saveTurns s = Inr s' \<Longrightarrow> isMember s' x k = isMember s x k"
  by (simp add: isMember_def saveTurns_frame)

text \<open>A run that finds ungrouped operations: the loop, then steps that keep the index,
  the keys of the store, the supply of ids and the membership of the turns.\<close>

lemma group_run:
  assumes run: "groupOperationsIntoTurns ops G s = Inr (created, s')"
    and some: "filter (\<lambda>op. \<not> truthy (getTurnForOperation s (op_id op))) ops \<noteq> []"
  obtains s1 cur lst where
    "group_loop G
       (sort_key op_timestamp (filter (\<lambda>op. \<not> truthy (getTurnForOperation s (op_id op))) ops))
       (s, [], None, None) = (s1, created, cur, lst)"
    "operationToTurn s' = operationToTurn s1"
    "fst ` set (turns s') = fst ` set (turns s1)"
    "uuids s' = uuids s1" "uuidCalls s' = uuidCalls s1"
    "\<And>x k. isMember s' x k = isMember s1 x k"
proof -
  let ?ungrouped = "filter (\<lambda>op. \<not> truthy (getTurnForOperation s (op_id op))) ops"
  obtain s1 cr cur lst where
    loop: "group_loop G (sort_key op_timestamp ?ungrouped) (s, [], None, None) = (s1, cr, cur, lst)"
    by (metis prod.exhaust)
  let ?s2 = "case cur of Some c \<Rightarrow> completeRef c s1 | None \<Rightarrow> s1"
  let ?s3 = "fold (describeTurn ?ungrouped) cr ?s2"
  from some have "ops \<noteq> []" by auto
  with run some loop have save: "saveTurns ?s3 = Inr s'" and cr: "cr = created"
    by (auto simp: groupOperationsIntoTurns_def Let_def split: sum.splits)
  have s2: "operationToTurn ?s2 = operationToTurn s1" "fst ` set (turns ?s2) = fst ` set (turns s1)"
    "uuids ?s2 = uuids s1" "uuidCalls ?s2 = uuidCalls s1" "\<And>x k. isMember ?s2 x k = isMember s1 x k"
    by (simp_all add: completeRef_frame isMember_completeRef split: option.splits)
  show thesis
  proof (rule that [of s1 cur lst])
    show "group_loop G (sort_key op_timestamp ?ungrouped) (s, [], None, None) =
            (s1, created, cur, lst)"
      using loop cr by simp
    show "operationToTurn s' = operationToTurn s1"
      using saveTurns_frame(2) [OF save] s2(1) by (simp add: fold_describeTurn_frame)
    show "fst ` set (turns s') = fst ` set (turns s1)"
      using saveTurns_frame(1) [OF save] s2(2) by (simp add: fold_describeTurn_frame)
    show "uuids s' = uuids s1"
      using saveTurns_frame(3) [OF save] s2(3) by (simp add: fold_describeTurn_frame)
    show "uuidCalls s' = uuidCalls s1"
      using saveTurns_frame(4) [OF save] s2(4) by (simp add: fold_describeTurn_frame)
    show "isMember s' x k = isMember s1 x k" for x k
      using isMember_saveTurns [OF save] s2(5) by (simp add: isMember_fold_describeTurn)
  qed
qed

lemma group_nothing_ungrouped:
  "filter (\<lambda>op. \<not> truthy (getTurnForOperation s (op_id op))) ops = [] \<Longrightarrow>
   groupOperationsIntoTurns ops G s = Inr ([], s)"
  by (simp add: groupOperationsIntoTurns_def)

text \<open>
  C6. When the ids that \<open>randomUUID\<close> is going to return are truthy, a second run of
  \<open>groupOperationsIntoTurns\<close> on the same list with the same gap, after a successful first
  run, creates no turn and changes nothing: every operation of the list has a turn by then.
  The first run leaves the assignment of every operation that already had one as it was,
  and it returns exactly the turns it created: their ids are the ids drawn during the run,
  in order, and the store holds the turns it held before and these.
\<close>

theorem group_idempotent:
  assumes ne: "\<forall>n \<ge> uuidCalls s. uuids s n \<noteq> []"
    and run: "groupOperationsIntoTurns ops G s = Inr (created, s1)"
  shows "groupOperationsIntoTurns ops G s1 = Inr ([], s1) \<and>
         (\<forall>op \<in> set ops. truthy (getTurnForOperation s (op_id op)) \<longrightarrow>
            getTurnForOperation s1 (op_id op) = getTurnForOperation s (op_id op)) \<and>
         created = map (uuids s) [uuidCalls s..<uuidCalls s1] \<and>
         fst ` set (turns s1) = fst ` set (turns s) \<union> set created"
proof (cases "filter (\<lambda>op. \<not> truthy (getTurnForOperation s (op_id op))) ops = []")
  case True
  from group_nothing_ungrouped [OF True, of G] run have e: "created = []" "s1 = s" by simp_all
  with group_nothing_ungrouped [OF True, of G] show ?thesis by simp
next
  case False
  let ?sorted = "sort_key op_timestamp
                   (filter (\<lambda>op. \<not> truthy (getTurnForOperation s (op_id op))) ops)"
  from run False obtain s' cur lst where
    loop: "group_loop G ?sorted (s, [], None, None) = (s', created, cur, lst)" and
    fr: "operationToTurn s1 = operationToTurn s'" "fst ` set (turns s1) = fst ` set (turns s')"
        "uuids s1 = uuids s'" "uuidCalls s1 = uuidCalls s'"
    by (rule group_run)
  have ok: "current_in_store (s, [], None, None)" by (simp add: current_in_store_def)
  note inv = group_loop_inv [OF ne ok loop]
  have all: "truthy (getTurnForOperation s1 (op_id op))" if "op \<in> set ops" for op
  proof (cases "truthy (getTurnForOperation s (op_id op))")
    case True
    with inv show ?thesis by (simp add: getTurnForOperation_def fr(1))
  next
    case False
    with that have "op \<in> set ?sorted" by simp
    with inv show ?thesis by (simp add: getTurnForOperation_def fr(1))
  qed
  then have "filter (\<lambda>op. \<not> truthy (getTurnForOperation s1 (op_id op))) ops = []"
    by (simp add: filter_empty_conv)
  then have again: "groupOperationsIntoTurns ops G s1 = Inr ([], s1)"
    by (rule group_nothing_ungrouped)
  have keep: "getTurnForOperation s1 (op_id op) = getTurnForOperation s (op_id op)"
    if "truthy (getTurnForOperation s (op_id op))" for op
  proof -
    have "op_id op \<notin> op_id ` set ?sorted"
    proof
      assume "op_id op \<in> op_id ` set ?sorted"
      then obtain op' where "op' \<in> set ?sorted" "op_id op' = op_id op" by auto
      then have "\<not> truthy (getTurnForOperation s (op_id op))" by auto
      with that show False by simp
    qed
    from group_loop_index_other [OF this, of G "(s, [], None, None)"] loop
    show ?thesis by (simp add: getTurnForOperation_def fr(1))
  qed
  from inv have cr: "created = map (uuids s) [uuidCalls s..<uuidCalls s1]" by (simp add: fr(4))
  from inv have "fst ` set (turns s1) = fst ` set (turns s) \<union> uuids s ` {uuidCalls s..<uuidCalls s1}"
    by (simp add: fr(2,4))
  then have keys: "fst ` set (turns s1) = fst ` set (turns s) \<union> set created"
    by (simp add: cr)
  from again keep cr keys show ?thesis by blast
qed

text \<open>
  C6 on the example: grouping the four operations a second time returns no turn and the
  same manager.
\<close>

theorem group_idempotent_witness:
  "groupOperationsIntoTurns four_ops 300000
     (snd (projr (groupOperationsIntoTurns four_ops 300000 fresh_manager))) =
   Inr ([], snd (projr (groupOperationsIntoTurns four_ops 300000 fresh_manager)))"
proof -
  have h1: "\<forall>n \<ge> uuidCalls fresh_manager. uuids fresh_manager n \<noteq> []"
    by (simp add: fresh_manager_def)
  obtain created s1 where
    run: "groupOperationsIntoTurns four_ops 300000 fresh_manager = Inr (created, s1)"
    using example_runs(3)
    by (cases "groupOperationsIntoTurns four_ops 300000 fresh_manager") auto
  from group_idempotent [OF h1 run] show ?thesis by (simp add: run)
qed

section \<open>Membership during grouping\<close>

lemma fresh_uuids_nonempty: "fresh_uuids s \<Longrightarrow> \<forall>n \<ge> uuidCalls s. uuids s n \<noteq> []"
  by (simp add: fresh_uuids_def)

lemma fresh_uuids_later:
  assumes f: "fresh_uuids s"
    and u: "uuids s' = uuids s" "uuidCalls s \<le> uuidCalls s'"
    and k: "fst ` set (turns s') = fst ` set (turns s) \<union> uuids s ` {uuidCalls s..<uuidCalls s'}"
  shows "fresh_uuids s'"
  unfolding fresh_uuids_def
proof (intro allI impI conjI)
  fix n assume n: "uuidCalls s' \<le> n"
  with u have n': "uuidCalls s \<le> n" by simp
  from f n' show "uuids s' n \<noteq> []" by (simp add: fresh_uuids_def u)
  show "uuids s' n \<notin> fst ` set (turns s')"
  proof
    assume "uuids s' n \<in> fst ` set (turns s')"
    with k u have "uuids s n \<in> fst ` set (turns s) \<or>
                   uuids s n \<in> uuids s ` {uuidCalls s..<uuidCalls s'}" by simp
    then show False
    proof
      assume "uuids s n \<in> fst ` set (turns s)"
      with f n' show False by (simp add: fresh_uuids_def)
    next
      assume "uuids s n \<in> uuids s ` {uuidCalls s..<uuidCalls s'}"
      then obtain m where m: "uuidCalls s \<le> m" "m < uuidCalls s'" "uuids s m = uuids s n"
        by auto
      with f n' have "m = n" unfolding fresh_uuids_def by blast
      with m n show False by simp
    qed
  qed
  fix m assume "uuidCalls s' \<le> m" "uuids s' m = uuids s' n"
  with u have "uuidCalls s \<le> m" "uuids s m = uuids s n" by simp_all
  with f n' show "m = n" unfolding fresh_uuids_def by blast
qed

lemma isMember_in_store: "isMember s x k \<Longrightarrow> k \<in> fst ` set (turns s)"
  by (auto simp: isMember_def in_store_iff split: option.splits)

lemma isMember_createTurn:
  "isMember (snd (createTurn desc s)) x k \<longleftrightarrow> k \<noteq> uuids s (uuidCalls s) \<and> isMember s x k"
  by (simp add: createTurn_eq isMember_def update_conv')

lemma isMember_addOperationToTurn:
  "isMember (addOperationToTurn opId c s) x k \<longleftrightarrow>
     isMember s x k \<or> (x = opId \<and> k = c \<and> c \<in> fst ` set (turns s))"
  by (auto simp: addOperationToTurn_def isMember_def update_conv' addOperation_def in_store_iff
      split: option.splits if_splits)

lemma group_body_member:
  assumes f: "fresh_uuids s"
    and ok: "current_in_store (s, cr, cur, lst)"
    and step: "group_body G operation (s, cr, cur, lst) = (s', cr', cur', lst')"
  shows "isMember s x k \<Longrightarrow> isMember s' x k"
    and "\<exists>c. cur' = Some c \<and> isMember s' (op_id operation) c"
proof -
  have "(isMember s x k \<longrightarrow> isMember s' x k) \<and>
        (\<exists>c. cur' = Some c \<and> isMember s' (op_id operation) c)"
  proof (cases "needNewTurn cur lst (op_timestamp operation) G")
    case True
    let ?s1 = "case cur of Some c \<Rightarrow> completeRef c s | None \<Rightarrow> s"
    let ?n = "uuids s (uuidCalls s)"
    have s1: "uuids ?s1 = uuids s" "uuidCalls ?s1 = uuidCalls s"
      "\<And>x k. isMember ?s1 x k = isMember s x k"
      by (simp_all add: completeRef_frame isMember_completeRef split: option.splits)
    have n: "fst (createTurn [] ?s1) = ?n" by (simp add: createTurn_frame s1)
    from group_body_new [OF True, of s cr] step have
      e: "s' = addOperationToTurn (op_id operation) ?n (snd (createTurn [] ?s1))"
         "cur' = Some ?n"
      by (simp_all add: n)
    have inn: "?n \<in> fst ` set (turns (snd (createTurn [] ?s1)))"
      by (simp add: createTurn_frame s1)
    have fresh: "?n \<notin> fst ` set (turns s)" using f by (simp add: fresh_uuids_def)
    have "isMember s' x k" if "isMember s x k"
    proof -
      from isMember_in_store [OF that] fresh have "k \<noteq> ?n" by blast
      with that show ?thesis
        by (simp add: e isMember_addOperationToTurn isMember_createTurn s1)
    qed
    moreover have "isMember s' (op_id operation) ?n"
      using inn by (simp add: e isMember_addOperationToTurn)
    ultimately show ?thesis using e(2) by blast
  next
    case False
    then obtain c where c: "cur = Some c" by (auto simp: needNewTurn_def)
    with ok have in_store: "c \<in> fst ` set (turns s)" by (simp add: current_in_store_def)
    from group_body_same [of c lst operation G s cr] False c step have
      e: "s' = addOperationToTurn (op_id operation) c s" "cur' = Some c"
      by simp_all
    show ?thesis using in_store by (simp add: e isMember_addOperationToTurn)
  qed
  then show "isMember s x k \<Longrightarrow> isMember s' x k"
    and "\<exists>c. cur' = Some c \<and> isMember s' (op_id operation) c"
    by blast+
qed

lemma group_body_fresh:
  assumes f: "fresh_uuids s"
    and ok: "current_in_store (s, cr, cur, lst)"
    and step: "group_body G operation (s, cr, cur, lst) = (s', cr', cur', lst')"
  shows "fresh_uuids s'" and "current_in_store (s', cr', cur', lst')"
proof -
  note ne = fresh_uuids_nonempty [OF f]
  note b = group_body_step [OF ne ok step]
  from f b(3,4,7) show "fresh_uuids s'" by (rule fresh_uuids_later)
  from group_body_current(1) [OF ne ok step] show "current_in_store (s', cr', cur', lst')" .
qed

lemma group_loop_member:
  assumes "fresh_uuids s"
    and "current_in_store (s, cr, cur, lst)"
    and "group_loop G xs (s, cr, cur, lst) = (s', cr', cur', lst')"
  shows "fresh_uuids s' \<and> current_in_store (s', cr', cur', lst') \<and>
         (isMember s x k \<longrightarrow> isMember s' x k)"
  using assms
proof (induction xs arbitrary: s cr cur lst)
  case Nil
  then show ?case by (simp add: group_loop_Nil)
next
  case (Cons operation rest)
  obtain s1 cr1 cur1 lst1 where
    step: "group_body G operation (s, cr, cur, lst) = (s1, cr1, cur1, lst1)"
    by (metis prod.exhaust)
  note fr = group_body_fresh [OF Cons.prems(1,2) step]
  note m = group_body_member(1) [OF Cons.prems(1,2) step, of x k]
  from Cons.prems(3) step have
    loop: "group_loop G rest (s1, cr1, cur1, lst1) = (s', cr', cur', lst')"
    by (simp add: group_loop_Cons)
  from Cons.IH [OF fr loop] m show ?case by blast
qed

section \<open>The boundary of the gap\<close>

lemma distinct_sorted_ungrouped:
  "distinct (map op_id ops) \<Longrightarrow>
   distinct (map op_id (sort_key op_timestamp (filter P ops)))"
proof -
  assume d: "distinct (map op_id ops)"
  have "mset (map op_id (sort_key op_timestamp (filter P ops))) = mset (map op_id (filter P ops))"
    by simp
  moreover have "distinct (map op_id (filter P ops))"
    using d by (rule distinct_map_filter)
  ultimately show ?thesis by (metis mset_eq_imp_distinct_iff)
qed

text \<open>
  C7. Let \<open>a\<close> and \<open>b\<close> be consecutive in the ungrouped operations sorted by timestamp, no
  more than the gap \<open>G\<close> apart (in particular exactly \<open>G\<close> apart). With operations of distinct
  ids and a fresh supply of turn ids, grouping maps both to the same turn and both are
  members of that turn: a new turn starts only when the gap is strictly greater than \<open>G\<close>.
  Grouping the empty list returns no turns, leaves the manager as it is and is no error.
\<close>

theorem group_gap_boundary:
  assumes fresh: "fresh_uuids s"
    and dist: "distinct (map op_id ops)"
    and run: "groupOperationsIntoTurns ops G s = Inr (created, s')"
    and consecutive:
      "sort_key op_timestamp (filter (\<lambda>op. \<not> truthy (getTurnForOperation s (op_id op))) ops) =
         pre @ a # b # post"
    and gap: "op_timestamp b - op_timestamp a \<le> G"
  shows "(\<exists>c. getTurnForOperation s' (op_id a) = Some c \<and>
              getTurnForOperation s' (op_id b) = Some c \<and>
              isMember s' (op_id a) c \<and> isMember s' (op_id b) c) \<and>
         groupOperationsIntoTurns ([] :: 'd operation list) G s = Inr ([], s)"
proof -
  let ?sorted = "sort_key op_timestamp
                   (filter (\<lambda>op. \<not> truthy (getTurnForOperation s (op_id op))) ops)"
  from consecutive have some:
    "filter (\<lambda>op. \<not> truthy (getTurnForOperation s (op_id op))) ops \<noteq> []"
    by auto
  from run some obtain s4 cur4 lst4 where
    loop: "group_loop G ?sorted (s, [], None, None) = (s4, created, cur4, lst4)" and
    fr: "operationToTurn s' = operationToTurn s4" and
    "fst ` set (turns s') = fst ` set (turns s4)" and
    "uuids s' = uuids s4" and "uuidCalls s' = uuidCalls s4" and
    frm: "\<And>x k. isMember s' x k = isMember s4 x k"
    by (rule group_run) blast
  have d: "distinct (map op_id (pre @ a # b # post))"
    using distinct_sorted_ungrouped [OF dist] consecutive by metis
  then have ab: "op_id a \<noteq> op_id b" and
    notin: "op_id a \<notin> op_id ` set post" "op_id b \<notin> op_id ` set post"
    by auto
  \<comment> \<open>the operations before \<open>a\<close>\<close>
  obtain s1 cr1 cur1 lst1 where
    l1: "group_loop G pre (s, [], None, None) = (s1, cr1, cur1, lst1)"
    by (metis prod.exhaust)
  have ok0: "current_in_store (s, [], None, None)" by (simp add: current_in_store_def)
  from group_loop_member [OF fresh ok0 l1] have
    f1: "fresh_uuids s1" and ok1: "current_in_store (s1, cr1, cur1, lst1)" by blast+
  \<comment> \<open>the operation \<open>a\<close>\<close>
  obtain s2 cr2 cur2 lst2 where
    l2: "group_body G a (s1, cr1, cur1, lst1) = (s2, cr2, cur2, lst2)"
    by (metis prod.exhaust)
  note st2 = group_body_step [OF fresh_uuids_nonempty [OF f1] ok1 l2]
  from group_body_member(2) [OF f1 ok1 l2] obtain c where
    c: "cur2 = Some c" "isMember s2 (op_id a) c" by blast
  from st2(1) c(1) have i2: "map_of (operationToTurn s2) (op_id a) = Some c" by auto
  note fr2 = group_body_fresh [OF f1 ok1 l2]
  \<comment> \<open>the operation \<open>b\<close>: no new turn\<close>
  have no: "\<not> needNewTurn (Some c) lst2 (op_timestamp b) G"
    using gap st2(2) by (simp add: needNewTurn_def)
  obtain s3 cr3 cur3 lst3 where
    l3: "group_body G b (s2, cr2, cur2, lst2) = (s3, cr3, cur3, lst3)"
    by (metis prod.exhaust)
  from group_body_same [OF no, of s2 cr2] l3 c(1) have cur3: "cur3 = Some c" by simp
  note st3 = group_body_step [OF fresh_uuids_nonempty [OF fr2(1)] fr2(2) l3]
  from st3(1) cur3 have
    i3: "map_of (operationToTurn s3) = (map_of (operationToTurn s2))(op_id b \<mapsto> c)" by auto
  from group_body_member(2) [OF fr2 l3] cur3 have mb: "isMember s3 (op_id b) c" by auto
  from group_body_member(1) [OF fr2 l3 c(2)] have ma: "isMember s3 (op_id a) c" .
  note fr3 = group_body_fresh [OF fr2 l3]
  \<comment> \<open>the operations after \<open>b\<close>\<close>
  from loop have l4: "group_loop G post (s3, cr3, cur3, lst3) = (s4, created, cur4, lst4)"
    by (simp add: consecutive group_loop_append group_loop_Cons l1 l2 l3)
  from group_loop_index_other [OF notin(1), of G "(s3, cr3, cur3, lst3)"] l4 i3 i2 ab
  have ia: "map_of (operationToTurn s4) (op_id a) = Some c" by simp
  from group_loop_index_other [OF notin(2), of G "(s3, cr3, cur3, lst3)"] l4 i3
  have ib: "map_of (operationToTurn s4) (op_id b) = Some c" by simp
  from group_loop_member [OF fr3 l4, of "op_id a" c] ma have ma4: "isMember s4 (op_id a) c"
    by blast
  from group_loop_member [OF fr3 l4, of "op_id b" c] mb have mb4: "isMember s4 (op_id b) c"
    by blast
  have "groupOperationsIntoTurns ([] :: 'd operation list) G s = Inr ([], s)"
    by (simp add: groupOperationsIntoTurns_def)
  with ia ib ma4 mb4 show ?thesis
    by (auto simp: getTurnForOperation_def fr frm)
qed

lemma fresh_manager_fresh: "fresh_uuids fresh_manager"
  by (simp add: fresh_uuids_def fresh_manager_def)

lemma boundary_sorted:
  "sort_key op_timestamp
     (filter (\<lambda>op. \<not> truthy (getTurnForOperation fresh_manager (op_id op))) boundary_ops) =
   [] @ mk_op ''p'' 0 FILE_EDIT # mk_op ''q'' 300000 FILE_EDIT # [mk_op ''r'' 600001 BASH_COMMAND]"
  by (simp add: boundary_ops_def mk_op_def truthy_def getTurnForOperation_def fresh_manager_def)

lemma boundary_runs: "\<not> isl (groupOperationsIntoTurns boundary_ops 300000 fresh_manager)"
  by (simp add: groupOperationsIntoTurns_def boundary_ops_def mk_op_def fresh_manager_def
      eval_defs Let_def)

text \<open>
  C7 on the example: \<open>q\<close> is exactly 300 s after \<open>p\<close>, the gap is 300 s, and both are in one
  turn.
\<close>

theorem group_gap_boundary_witness:
  "fresh_uuids fresh_manager \<and> distinct (map op_id boundary_ops) \<and>
   op_timestamp (mk_op ''q'' 300000 FILE_EDIT) - op_timestamp (mk_op ''p'' 0 FILE_EDIT) = 300000 \<and>
   (\<exists>c. getTurnForOperation
           (snd (projr (groupOperationsIntoTurns boundary_ops 300000 fresh_manager))) ''p''
           = Some c \<and>
        getTurnForOperation
           (snd (projr (groupOperationsIntoTurns boundary_ops 300000 fresh_manager))) ''q''
           = Some c \<and>
        isMember (snd (projr (groupOperationsIntoTurns boundary_ops 300000 fresh_manager)))
           ''p'' c \<and>
        isMember (snd (projr (groupOperationsIntoTurns boundary_ops 300000 fresh_manager)))
           ''q'' c)"
proof -
  have h2: "distinct (map op_id boundary_ops)"
    by (simp add: boundary_ops_def mk_op_def)
  have h5: "op_timestamp (mk_op ''q'' 300000 FILE_EDIT) - op_timestamp (mk_op ''p'' 0 FILE_EDIT)
              \<le> 300000"
    by (simp add: mk_op_def)
  obtain created s' where
    run: "groupOperationsIntoTurns boundary_ops 300000 fresh_manager = Inr (created, s')"
    using boundary_runs
    by (cases "groupOperationsIntoTurns boundary_ops 300000 fresh_manager") auto
  from group_gap_boundary [OF fresh_manager_fresh h2 run boundary_sorted h5, THEN conjunct1]
  have "\<exists>c. getTurnForOperation s' ''p'' = Some c \<and> getTurnForOperation s' ''q'' = Some c \<and>
            isMember s' ''p'' c \<and> isMember s' ''q'' c"
    by (simp add: mk_op_def)
  with fresh_manager_fresh h2 show ?thesis by (simp add: run mk_op_def)
qed

section \<open>Assigning an operation a second time\<close>

lemma two_turns_turns:
  "turns two_turns =
     [(''turn-'', first_turn\<lparr>operations := [''x'']\<rparr>),
      (''turn-i'', second_turn\<lparr>operations := []\<rparr>)]"
  and two_turns_index: "operationToTurn two_turns = [(''x'', ''turn-'')]"
  by (simp_all add: two_turns_def fresh_manager_def first_turn_def second_turn_def eval_defs
      Let_def)

text \<open>
  Adding an operation to a turn keeps the index and the lists in agreement as long as the
  operation is unassigned or already assigned to that very turn.
\<close>

lemma addOperationToTurn_consistent:
  assumes cons: "consistent s"
    and free: "getTurnForOperation s opId = None \<or> getTurnForOperation s opId = Some c"
  shows "consistent (addOperationToTurn opId c s)"
proof (cases "map_of (turns s) c")
  case None
  then have "addOperationToTurn opId c s = s" by (simp add: addOperationToTurn_def)
  with cons show ?thesis by simp
next
  case (Some t)
  from cons have c1: "\<And>k t. map_of (turns s) k = Some t \<Longrightarrow> k \<noteq> []"
    and c2: "\<And>k t x. map_of (turns s) k = Some t \<Longrightarrow> x \<in> set (operations t)
               \<Longrightarrow> map_of (operationToTurn s) x = Some k"
    and c3: "\<And>x k. map_of (operationToTurn s) x = Some k \<Longrightarrow>
               \<exists>t. map_of (turns s) k = Some t \<and> x \<in> set (operations t)"
    unfolding consistent_iff isMember_iff by blast+
  have tu: "map_of (turns (addOperationToTurn opId c s)) =
              (map_of (turns s))(c \<mapsto> addOperation opId t)"
    and ix: "map_of (operationToTurn (addOperationToTurn opId c s)) =
              (map_of (operationToTurn s))(opId \<mapsto> c)"
    using Some by (simp_all add: addOperationToTurn_def update_conv')
  have ops: "set (operations (addOperation opId u)) = insert opId (set (operations u))" for u
    by (auto simp: addOperation_def)
  show ?thesis
    unfolding consistent_iff isMember_iff tu ix
  proof (intro conjI allI impI ballI)
    fix k t' assume "((map_of (turns s))(c \<mapsto> addOperation opId t)) k = Some t'"
    then show "k \<noteq> []" using c1 Some by (auto split: if_splits)
  next
    fix k t' x
    assume a: "((map_of (turns s))(c \<mapsto> addOperation opId t)) k = Some t'"
      "x \<in> set (operations t')"
    show "((map_of (operationToTurn s))(opId \<mapsto> c)) x = Some k"
    proof (cases "k = c")
      case True
      with a have "x = opId \<or> x \<in> set (operations t)" by (auto simp: ops)
      with c2 [OF Some] True show ?thesis by auto
    next
      case False
      with a have m: "map_of (turns s) k = Some t'" by simp
      from c2 [OF m a(2)] have x: "map_of (operationToTurn s) x = Some k" .
      with free False have "x \<noteq> opId" by (auto simp: getTurnForOperation_def)
      with x show ?thesis by simp
    qed
  next
    fix x k assume a: "((map_of (operationToTurn s))(opId \<mapsto> c)) x = Some k"
    show "\<exists>ta. ((map_of (turns s))(c \<mapsto> addOperation opId t)) k = Some ta \<and>
               x \<in> set (operations ta)"
    proof (cases "x = opId")
      case True
      with a have "k = c" by simp
      with True show ?thesis by (simp add: ops)
    next
      case False
      with a have "map_of (operationToTurn s) x = Some k" by simp
      from c3 [OF this] obtain t' where t': "map_of (turns s) k = Some t'" "x \<in> set (operations t')"
        by blast
      with Some show ?thesis by (cases "k = c") (auto simp: ops)
    qed
  qed
qed

text \<open>
  C4 at a failing input. In \<open>two_turns\<close>, reached by two calls of \<open>createTurn\<close> and one of
  \<open>addOperationToTurn\<close>, the operation \<open>x\<close> is a member of the turn \<open>turn-\<close> and mapped to it.
  After \<open>addOperationToTurn\<close> of \<open>x\<close> to the other turn \<open>turn-i\<close>, \<open>x\<close> is a member of both
  turns and the index maps it to \<open>turn-i\<close> only: the operation is in two turns, and the
  index no longer agrees with the list of \<open>turn-\<close>.
\<close>

theorem addOperationToTurn_second_turn:
  "isMember two_turns ''x'' ''turn-'' \<and>
   getTurnForOperation two_turns ''x'' = Some ''turn-'' \<and>
   isMember (addOperationToTurn ''x'' ''turn-i'' two_turns) ''x'' ''turn-'' \<and>
   isMember (addOperationToTurn ''x'' ''turn-i'' two_turns) ''x'' ''turn-i'' \<and>
   getTurnForOperation (addOperationToTurn ''x'' ''turn-i'' two_turns) ''x'' = Some ''turn-i''"
  by (simp add: isMember_def getTurnForOperation_def addOperationToTurn_def addOperation_def
      two_turns_turns two_turns_index)

lemma two_turns_consistent: "consistent two_turns"
  by (simp add: consistent_def isMember_def two_turns_turns two_turns_index)

lemma second_turn_inconsistent: "\<not> consistent (addOperationToTurn ''x'' ''turn-i'' two_turns)"
  by (simp add: consistent_def isMember_def addOperationToTurn_def addOperation_def
      two_turns_turns two_turns_index)

section \<open>The operations that keep the index consistent\<close>

text \<open>
  Apart from \<open>addOperationToTurn\<close> on an operation of another turn, the operations of the
  manager keep the reverse index and the lists of the turns in agreement: \<open>createTurn\<close>
  with a fresh id, \<open>completeTurn\<close>, \<open>removeOperationsFromTurns\<close>, and
  \<open>groupOperationsIntoTurns\<close> on operations of distinct ids.
\<close>

lemma consistent_map_entry:
  assumes "\<And>t. operations (f t) = operations t"
  shows "consistent (s\<lparr>turns := AList.map_entry c f (turns s)\<rparr>) = consistent s"
proof -
  have m: "isMember (s\<lparr>turns := AList.map_entry c f (turns s)\<rparr>) x k = isMember s x k" for x k
    using assms by (rule isMember_map_entry)
  have "(\<forall>k t. map_of (AList.map_entry c f (turns s)) k = Some t \<longrightarrow> Q k (operations t)) \<longleftrightarrow>
        (\<forall>k t. map_of (turns s) k = Some t \<longrightarrow> Q k (operations t))" for Q
  proof
    assume l: "\<forall>k t. map_of (AList.map_entry c f (turns s)) k = Some t \<longrightarrow> Q k (operations t)"
    show "\<forall>k t. map_of (turns s) k = Some t \<longrightarrow> Q k (operations t)"
    proof (intro allI impI)
      fix k t assume kt: "map_of (turns s) k = Some t"
      then have "map_of (AList.map_entry c f (turns s)) k = Some (if k = c then f t else t)"
        by (auto simp: map_of_map_entry)
      with l have "Q k (operations (if k = c then f t else t))" by blast
      then show "Q k (operations t)" using assms by (simp split: if_splits)
    qed
  next
    assume r: "\<forall>k t. map_of (turns s) k = Some t \<longrightarrow> Q k (operations t)"
    show "\<forall>k t. map_of (AList.map_entry c f (turns s)) k = Some t \<longrightarrow> Q k (operations t)"
    proof (intro allI impI)
      fix k t assume "map_of (AList.map_entry c f (turns s)) k = Some t"
      then obtain u where u: "map_of (turns s) k = Some u" "operations t = operations u"
        using assms by (auto simp: map_of_map_entry split: option.splits if_splits)
      with r show "Q k (operations t)" by simp
    qed
  qed
  from this [of "\<lambda>k os. k \<noteq> [] \<and> (\<forall>opId \<in> set os. map_of (operationToTurn s) opId = Some k)"]
  show ?thesis
    unfolding consistent_iff m by simp
qed

lemma completeRef_consistent: "consistent (completeRef c s) = consistent s"
proof -
  have "consistent (s\<lparr>turns := AList.map_entry c (complete (clock s (clockReads s))) (turns s)\<rparr>)
        = consistent s"
    by (rule consistent_map_entry) (simp add: complete_def)
  moreover have "consistent (completeRef c s) =
    consistent (s\<lparr>turns := AList.map_entry c (complete (clock s (clockReads s))) (turns s)\<rparr>)"
    by (rule consistent_cong) (simp_all add: completeRef_eq)
  ultimately show ?thesis by simp
qed

lemma describeTurn_consistent: "consistent (describeTurn us c s) = consistent s"
  unfolding describeTurn_def by (rule consistent_map_entry) simp

lemma fold_describeTurn_consistent: "consistent (fold (describeTurn us) cs s) = consistent s"
  by (induction cs arbitrary: s) (simp_all add: describeTurn_consistent)

lemma saveTurns_consistent: "saveTurns s = Inr s' \<Longrightarrow> consistent s' = consistent s"
  by (rule consistent_cong) (simp_all add: saveTurns_frame)

lemma createTurn_consistent:
  assumes cons: "consistent s" and f: "fresh_uuids s"
  shows "consistent (snd (createTurn desc s))"
proof -
  let ?n = "uuids s (uuidCalls s)"
  from f have n: "?n \<noteq> []" "map_of (turns s) ?n = None"
    by (simp_all add: fresh_uuids_def in_store_iff)
  have tu: "map_of (turns (snd (createTurn desc s))) k =
              (if k = ?n then Some \<lparr> turn_id = ?n, turn_timestamp = clock s (clockReads s),
                 description = desc, operations = [],
                 startTime = clock s (Suc (clockReads s)), endTime = None, completed = False \<rparr>
               else map_of (turns s) k)" for k
    by (simp add: createTurn_eq update_conv')
  from cons have c1: "\<And>k t. map_of (turns s) k = Some t \<Longrightarrow> k \<noteq> []"
    and c2: "\<And>k t x. map_of (turns s) k = Some t \<Longrightarrow> x \<in> set (operations t)
               \<Longrightarrow> map_of (operationToTurn s) x = Some k"
    and c3: "\<And>x k. map_of (operationToTurn s) x = Some k \<Longrightarrow>
               \<exists>t. map_of (turns s) k = Some t \<and> x \<in> set (operations t)"
    unfolding consistent_iff isMember_iff by blast+
  show ?thesis
    unfolding consistent_iff isMember_iff createTurn_frame tu
  proof (intro conjI allI impI ballI)
    fix k t assume "(if k = ?n then Some \<lparr> turn_id = ?n, turn_timestamp = clock s (clockReads s),
                 description = desc, operations = [],
                 startTime = clock s (Suc (clockReads s)), endTime = None, completed = False \<rparr>
               else map_of (turns s) k) = Some t"
    then show "k \<noteq> []" using n(1) c1 by (auto split: if_splits)
  next
    fix k t x assume "(if k = ?n then Some \<lparr> turn_id = ?n, turn_timestamp = clock s (clockReads s),
                 description = desc, operations = [],
                 startTime = clock s (Suc (clockReads s)), endTime = None, completed = False \<rparr>
               else map_of (turns s) k) = Some t" "x \<in> set (operations t)"
    then show "map_of (operationToTurn s) x = Some k" using c2 by (auto split: if_splits)
  next
    fix x k assume a: "map_of (operationToTurn s) x = Some k"
    from c3 [OF a] obtain t where t: "map_of (turns s) k = Some t" "x \<in> set (operations t)"
      by blast
    with n(2) have "k \<noteq> ?n" by auto
    with t show "\<exists>t. (if k = ?n then Some \<lparr> turn_id = ?n, turn_timestamp = clock s (clockReads s),
                 description = desc, operations = [],
                 startTime = clock s (Suc (clockReads s)), endTime = None, completed = False \<rparr>
               else map_of (turns s) k) = Some t \<and> x \<in> set (operations t)"
      by simp
  qed
qed

lemma completeTurn_consistent:
  "consistent s \<Longrightarrow> completeTurn turnId s = Inr s' \<Longrightarrow> consistent s'"
  by (auto simp: completeTurn_def completeRef_consistent split: option.splits
      dest: saveTurns_consistent)

lemma removeOperationsFromTurns_consistent:
  "consistent s \<Longrightarrow> removeOperationsFromTurns ids s = Inr s' \<Longrightarrow> consistent s'"
  unfolding removeOperationsFromTurns_def
  by (drule saveTurns_consistent) (simp add: fold_removeOperation_consistent)

lemma group_body_consistent:
  assumes cons: "consistent s"
    and f: "fresh_uuids s"
    and ok: "current_in_store (s, cr, cur, lst)"
    and free: "getTurnForOperation s (op_id operation) = None"
    and step: "group_body G operation (s, cr, cur, lst) = (s', cr', cur', lst')"
  shows "consistent s'"
proof (cases "needNewTurn cur lst (op_timestamp operation) G")
  case True
  let ?s1 = "case cur of Some c \<Rightarrow> completeRef c s | None \<Rightarrow> s"
  have s1: "consistent ?s1" "fresh_uuids ?s1"
    "operationToTurn ?s1 = operationToTurn s"
    using cons f
    by (auto simp: completeRef_consistent fresh_uuids_def completeRef_frame split: option.splits)
  have c2: "consistent (snd (createTurn [] ?s1))"
    using s1(1,2) by (rule createTurn_consistent)
  from group_body_new [OF True, of s cr] step have
    e: "s' = addOperationToTurn (op_id operation) (fst (createTurn [] ?s1))
              (snd (createTurn [] ?s1))"
    by simp
  have "getTurnForOperation (snd (createTurn [] ?s1)) (op_id operation) = None"
    using free by (simp add: getTurnForOperation_def createTurn_frame s1(3))
  then show ?thesis
    unfolding e by (intro addOperationToTurn_consistent [OF c2]) simp
next
  case False
  then obtain c where c: "cur = Some c" by (auto simp: needNewTurn_def)
  from group_body_same [of c lst operation G s cr] False c step have
    e: "s' = addOperationToTurn (op_id operation) c s"
    by simp
  show ?thesis
    unfolding e using free by (intro addOperationToTurn_consistent [OF cons]) simp
qed

lemma group_loop_consistent:
  assumes "consistent s"
    and "fresh_uuids s"
    and "current_in_store (s, cr, cur, lst)"
    and "distinct (map op_id xs)"
    and "\<forall>op \<in> set xs. getTurnForOperation s (op_id op) = None"
    and "group_loop G xs (s, cr, cur, lst) = (s', cr', cur', lst')"
  shows "consistent s'"
  using assms
proof (induction xs arbitrary: s cr cur lst)
  case Nil
  then show ?case by (simp add: group_loop_Nil)
next
  case (Cons operation rest)
  obtain s1 cr1 cur1 lst1 where
    step: "group_body G operation (s, cr, cur, lst) = (s1, cr1, cur1, lst1)"
    by (metis prod.exhaust)
  from Cons.prems(5) have free: "getTurnForOperation s (op_id operation) = None" by simp
  have c1: "consistent s1"
    using Cons.prems(1,2,3) free step by (rule group_body_consistent)
  note fr = group_body_fresh [OF Cons.prems(2,3) step]
  have rest: "\<forall>op \<in> set rest. getTurnForOperation s1 (op_id op) = None"
  proof
    fix op assume op: "op \<in> set rest"
    have "op_id op \<noteq> op_id operation"
    proof
      assume "op_id op = op_id operation"
      with op have "op_id operation \<in> op_id ` set rest" by (metis imageI)
      with Cons.prems(4) show False by simp
    qed
    from group_body_index_other [OF this, of G s cr cur lst] step Cons.prems(5) op
    show "getTurnForOperation s1 (op_id op) = None"
      by (simp add: getTurnForOperation_def)
  qed
  from Cons.prems(4) have d: "distinct (map op_id rest)" by simp
  from Cons.prems(6) step have
    loop: "group_loop G rest (s1, cr1, cur1, lst1) = (s', cr', cur', lst')"
    by (simp add: group_loop_Cons)
  from Cons.IH [OF c1 fr d rest loop] show ?case .
qed

lemma groupOperationsIntoTurns_consistent:
  assumes cons: "consistent s"
    and f: "fresh_uuids s"
    and dist: "distinct (map op_id ops)"
    and run: "groupOperationsIntoTurns ops G s = Inr (created, s')"
  shows "consistent s'"
proof (cases "filter (\<lambda>op. \<not> truthy (getTurnForOperation s (op_id op))) ops = []")
  case True
  from group_nothing_ungrouped [OF True, of G] run cons show ?thesis by simp
next
  case False
  let ?ungrouped = "filter (\<lambda>op. \<not> truthy (getTurnForOperation s (op_id op))) ops"
  obtain s1 cr cur lst where
    loop: "group_loop G (sort_key op_timestamp ?ungrouped) (s, [], None, None) = (s1, cr, cur, lst)"
    by (metis prod.exhaust)
  let ?s2 = "case cur of Some c \<Rightarrow> completeRef c s1 | None \<Rightarrow> s1"
  let ?s3 = "fold (describeTurn ?ungrouped) cr ?s2"
  from False have "ops \<noteq> []" by auto
  with run False loop have save: "saveTurns ?s3 = Inr s'"
    by (auto simp: groupOperationsIntoTurns_def Let_def split: sum.splits)
  have ok: "current_in_store (s, [], None, None)" by (simp add: current_in_store_def)
  have free: "\<forall>op \<in> set (sort_key op_timestamp ?ungrouped). getTurnForOperation s (op_id op) = None"
    using consistent_truthy [OF cons] by (simp add: getTurnForOperation_def)
  have "consistent s1"
    using cons f ok distinct_sorted_ungrouped [OF dist] free loop
    by (rule group_loop_consistent)
  then have "consistent ?s3"
    by (simp add: fold_describeTurn_consistent completeRef_consistent split: option.splits)
  with saveTurns_consistent [OF save] show ?thesis by simp
qed

section \<open>A batch after an operation was assigned twice\<close>

text \<open>
  The state after \<open>x\<close> has been assigned to a second turn, and a batch on the first turn with a
  delegate that succeeds.
\<close>

lemma reassigned_turns:
  "turns reassigned =
     [(''turn-'', first_turn\<lparr>operations := [''x'']\<rparr>),
      (''turn-i'', second_turn\<lparr>operations := [''x'']\<rparr>)]"
  and reassigned_index: "operationToTurn reassigned = [(''x'', ''turn-i'')]"
  and reassigned_writable: "writable reassigned"
  by (simp_all add: reassigned_def two_turns_def fresh_manager_def first_turn_def
      second_turn_def eval_defs Let_def)

lemma undoTurn_reassigned:
  "undoTurn (logged reliable) ''turn-'' [mk_op ''x'' 10 FILE_EDIT] ((0, []), reassigned) =
   Inr (\<lparr> br_success = True,
           br_message = ''Turn undo completed: 1 successful, 0 failed'',
           br_successCount = Some 1, br_failCount = Some 0,
           br_results = Some [\<lparr> success = True, message = ''File edit reverted'',
                                 backupPath = None \<rparr>] \<rparr>,
        (1, [mk_op ''x'' 10 FILE_EDIT]),
        reassigned
          \<lparr>turns := [(''turn-'', first_turn\<lparr>operations := [''x'']\<rparr>)],
           operationToTurn := [],
           turnsFile := Some [turn_toJSON (first_turn\<lparr>operations := [''x'']\<rparr>)]\<rparr>)"
  by (simp add: undoTurn_def getTurn_def turnOperationsOf_def reassigned_turns reassigned_index
      reassigned_writable first_turn_def second_turn_def mk_op_def undo_loop_def undo_body_def
      logged_def reliable_def successfulOpIds_def removeOperationsFromTurns_def
      removeOperation_def saveTurns_def truthy_def Let_def show_nat_1 show_nat_small digit_def)

text \<open>
  C5 at a state in which the batch does not leave exactly the failed operations tracked. In
  \<open>reassigned\<close> the operation \<open>x\<close> was assigned to \<open>turn-\<close> and then to \<open>turn-i\<close>, so it is
  in the lists of both turns and the index maps it to \<open>turn-i\<close>. \<open>undoTurn\<close> of \<open>turn-\<close> calls
  the delegate on \<open>x\<close>, which succeeds, and then removes \<open>x\<close> from the turn the index names:
  afterwards \<open>x\<close> is still in the list of \<open>turn-\<close>, although its undo succeeded, the index
  maps it to no turn, and the turn \<open>turn-i\<close>, which was not undone, has been emptied and
  deleted from the store.
\<close>

theorem undoTurn_after_second_assignment:
  "isMember reassigned ''x'' ''turn-'' \<and>
   \<not> isl (undoTurn (logged reliable) ''turn-'' [mk_op ''x'' 10 FILE_EDIT] ((0, []), reassigned)) \<and>
   snd (fst (snd (projr
     (undoTurn (logged reliable) ''turn-'' [mk_op ''x'' 10 FILE_EDIT] ((0, []), reassigned))))) =
     [mk_op ''x'' 10 FILE_EDIT] \<and>
   br_results (fst (projr
     (undoTurn (logged reliable) ''turn-'' [mk_op ''x'' 10 FILE_EDIT] ((0, []), reassigned)))) =
     Some [\<lparr> success = True, message = ''File edit reverted'', backupPath = None \<rparr>] \<and>
   isMember (snd (snd (projr
     (undoTurn (logged reliable) ''turn-'' [mk_op ''x'' 10 FILE_EDIT] ((0, []), reassigned)))))
     ''x'' ''turn-'' \<and>
   getTurnForOperation (snd (snd (projr
     (undoTurn (logged reliable) ''turn-'' [mk_op ''x'' 10 FILE_EDIT] ((0, []), reassigned)))))
     ''x'' = None \<and>
   getTurn reassigned ''turn-i'' \<noteq> None \<and>
   getTurn (snd (snd (projr
     (undoTurn (logged reliable) ''turn-'' [mk_op ''x'' 10 FILE_EDIT] ((0, []), reassigned)))))
     ''turn-i'' = None"
  unfolding undoTurn_reassigned
  by (simp add: isMember_def getTurnForOperation_def getTurn_def reassigned_turns)

section \<open>Further facts\<close>

text \<open>Grouping the empty list returns no turns and the same manager, in every state.\<close>

lemma group_empty_list: "groupOperationsIntoTurns [] G s = Inr ([], s)"
  by (simp add: groupOperationsIntoTurns_def)

text \<open>A successful \<open>createTurnWithOperations\<close> has written the turns as they are in memory.\<close>

lemma createTurnWithOperations_persisted:
  "createTurnWithOperations operationIds desc allOperations s = Inr (r, s') \<Longrightarrow> persisted s'"
  by (auto simp: createTurnWithOperations_def Let_def split: prod.splits sum.splits
      dest: saveTurns_persisted)

text \<open>
  A mixed list of directory operations only fills no bucket: its description is the empty
  string.
\<close>

lemma generateDescription_only_directories: "generateDescription only_directories = []"
  by (simp add: generateDescription_def mixed_description_def only_directories_def mk_op_def
      OperationType_defs startsWith_def)

end
